theory Spec2Isabelle
  imports Main "HOL-Library.AList" "HOL-Library.Sublist"
begin

section \<open>Unicode strings\<close>

text \<open>
  The program runs under Python 2 with \<open>unicode_literals\<close>: every string is a sequence of
  Unicode code points.  A code point is a natural number, a string a list of them;
  \<open>u ''abc''\<close> is the string of an ASCII literal.
\<close>

type_synonym uchar = nat
type_synonym ustring = "nat list"

abbreviation u :: "string \<Rightarrow> ustring" where
  "u s \<equiv> map of_char s"

text \<open>\<open>' ' * n\<close>.\<close>

definition spaces :: "nat \<Rightarrow> ustring" where
  "spaces n = replicate n 32"

text \<open>\<open>sep.join(xs)\<close>.\<close>

fun join :: "ustring \<Rightarrow> ustring list \<Rightarrow> ustring" where
  "join sep [] = []"
| "join sep [x] = x"
| "join sep (x # y # ys) = x @ sep @ join sep (y # ys)"

text \<open>
  \<open>unicode.isspace\<close> of one character and the line boundaries of \<open>unicode.splitlines\<close>,
  as CPython 2.7 tabulates them.
\<close>

definition isspace :: "uchar \<Rightarrow> bool" where
  "isspace c = ((9 \<le> c \<and> c \<le> 13) \<or> (28 \<le> c \<and> c \<le> 32) \<or> c = 133 \<or> c = 160
      \<or> c = 5760 \<or> c = 6158 \<or> (8192 \<le> c \<and> c \<le> 8202) \<or> c = 8232 \<or> c = 8233
      \<or> c = 8239 \<or> c = 8287 \<or> c = 12288)"

definition islinebreak :: "uchar \<Rightarrow> bool" where
  "islinebreak c = ((10 \<le> c \<and> c \<le> 13) \<or> (28 \<le> c \<and> c \<le> 30) \<or> c = 133
      \<or> c = 8232 \<or> c = 8233)"

text \<open>\<open>s.lstrip()\<close> and \<open>s.strip()\<close>.\<close>

definition lstrip :: "ustring \<Rightarrow> ustring" where
  "lstrip s = dropWhile isspace s"

definition strip :: "ustring \<Rightarrow> ustring" where
  "strip s = rev (dropWhile isspace (rev (dropWhile isspace s)))"

text \<open>\<open>s.split()\<close>: the maximal runs of non-whitespace characters.\<close>

function split :: "ustring \<Rightarrow> ustring list" where
  "split [] = []"
| "split (c # cs) =
     (if isspace c then split cs
      else takeWhile (\<lambda>x. \<not> isspace x) (c # cs) # split (dropWhile (\<lambda>x. \<not> isspace x) cs))"
  by pat_completeness auto
termination
  by (relation "measure length") (auto simp: less_Suc_eq_le length_dropWhile_le)

text \<open>
  \<open>s.splitlines()\<close>: the lines of \<open>s\<close> without their terminators; \<open>\r\n\<close> is one
  terminator, and a terminator at the very end opens no further line.
\<close>

fun skip_lf :: "uchar \<Rightarrow> ustring \<Rightarrow> ustring" where
  "skip_lf c (d # ds) = (if c = 13 \<and> d = 10 then ds else d # ds)"
| "skip_lf c [] = []"

function splitlines :: "ustring \<Rightarrow> ustring list" where
  "splitlines [] = []"
| "splitlines (c # cs) =
     (if islinebreak c then [] # splitlines (skip_lf c cs)
      else (case splitlines cs of [] \<Rightarrow> [[c]] | l # ls \<Rightarrow> (c # l) # ls))"
  by pat_completeness auto
termination
proof (relation "measure length")
  fix c :: uchar and cs :: ustring
  show "(skip_lf c cs, c # cs) \<in> measure length"
    by (cases cs) auto
qed auto

section \<open>Data model\<close>

text \<open>
  An attribute value is a single string, or a list of tokens (\<open>class\<close>); \<open>attr_str\<close>
  tells them apart with \<open>isinstance(val, list)\<close>.  The attribute dictionary is an
  association list in the dictionary's iteration order: \<open>del\<close> removes the entry and
  an assignment to an existing key keeps its place.
\<close>

datatype attr_val = Str ustring | Toks "ustring list"

type_synonym attr_map = "(ustring \<times> attr_val) list"

text \<open>
  A node of the parse tree: a tag with its name, attributes and children, or a
  navigable string (text, comment), which is its text.
\<close>

datatype node =
    Tag (name: ustring) (attrs: attr_map) (contents: "node list")
  | NavigableString ustring

datatype error = AssertionError | IndexError | TypeError | AttributeError

section \<open>Attribute classifier\<close>

text \<open>
  \<open>RE_COMPILED.match(s)\<close> for the pattern \<open>.*(?:#|\.|\{\{|\{%).*\<close>: one of the four
  markers starts at some position, and the leading \<open>.*\<close> reaches that position, which
  it does when no line feed comes before it (\<open>.\<close> matches every character but the
  line feed).
\<close>

definition starts_reserved :: "ustring \<Rightarrow> bool" where
  "starts_reserved s = (prefix (u ''#'') s \<or> prefix (u ''.'') s
      \<or> prefix (u ''{{'') s \<or> prefix (u ''{%'') s)"

fun RE_COMPILED_match :: "ustring \<Rightarrow> bool" where
  "RE_COMPILED_match [] = False"
| "RE_COMPILED_match (c # cs) =
     (if starts_reserved (c # cs) then True
      else if c = 10 then False
      else RE_COMPILED_match cs)"

text \<open>
  The reading of the specification, for comparison with \<open>RE_COMPILED_match\<close>: the
  string contains one of \<open>#\<close>, \<open>.\<close>, \<open>{{\<close>, \<open>{%\<close> at some position.
\<close>

fun contains_reserved :: "ustring \<Rightarrow> bool" where
  "contains_reserved [] = False"
| "contains_reserved (c # cs) = (if starts_reserved (c # cs) then True else contains_reserved cs)"

text \<open>
  Iterating a value and filtering it: a list yields its tokens and filters to a list; a
  string yields its characters as strings of length one and filters to a string.
\<close>

fun iter_val :: "attr_val \<Rightarrow> ustring list" where
  "iter_val (Toks ts) = ts"
| "iter_val (Str s) = map (\<lambda>c. [c]) s"

fun filter_val :: "(ustring \<Rightarrow> bool) \<Rightarrow> attr_val \<Rightarrow> attr_val" where
  "filter_val P (Toks ts) = Toks (filter P ts)"
| "filter_val P (Str s) = Str (filter (\<lambda>c. P [c]) s)"

text \<open>
  \<open>get_element_id\<close>: the shorthand and the attributes afterwards.  Matching the pattern
  against a list raises \<open>TypeError\<close>.
\<close>

definition get_element_id :: "attr_map \<Rightarrow> (error + ustring) \<times> attr_map" where
  "get_element_id as =
     (case map_of as (u ''id'') of
        None \<Rightarrow> (Inr [], as)
      | Some (Toks ts) \<Rightarrow> (Inl TypeError, as)
      | Some (Str v) \<Rightarrow>
          if \<not> RE_COMPILED_match v then (Inr (u ''#'' @ v), AList.delete (u ''id'') as)
          else (Inr [], as))"

text \<open>
  \<open>fold_jinja_tags_in_class\<close>.  The loop takes the marker positions from the right, two
  at a time (\<open>end\<close>, then \<open>begin\<close>), inserts the joined slice at \<open>begin\<close> and deletes the
  slice, now one place further right.
\<close>

definition jinja_markers :: "ustring list" where
  "jinja_markers = [u ''{%'', u ''%}'', u ''{{'', u ''}}'']"

definition marker_positions :: "ustring list \<Rightarrow> nat list" where
  "marker_positions cls = filter (\<lambda>i. cls ! i \<in> set jinja_markers) [0..<length cls]"

definition list_insert :: "nat \<Rightarrow> 'a \<Rightarrow> 'a list \<Rightarrow> 'a list" where
  "list_insert i x xs = take i xs @ [x] @ drop i xs"

definition slice :: "nat \<Rightarrow> nat \<Rightarrow> 'a list \<Rightarrow> 'a list" where
  "slice b e xs = take (e - b) (drop b xs)"

definition del_slice :: "nat \<Rightarrow> nat \<Rightarrow> 'a list \<Rightarrow> 'a list" where
  "del_slice b e xs = (if b < e then take b xs @ drop e xs else xs)"

fun fold_pairs :: "nat list \<Rightarrow> ustring list \<Rightarrow> ustring list" where
  "fold_pairs (e # b # ps) cls =
     fold_pairs ps
       (del_slice (b + 1) (e + 2) (list_insert b (join (u '' '') (slice b (e + 1) cls)) cls))"
| "fold_pairs ps cls = cls"

text \<open>
  On a string the membership tests are substring tests and no character equals a
  marker of two characters, so the position list is empty and nothing changes.
\<close>

fun fold_jinja_tags_in_class :: "attr_val \<Rightarrow> error + attr_val" where
  "fold_jinja_tags_in_class (Str s) = Inr (Str s)"
| "fold_jinja_tags_in_class (Toks cls) =
     (if u ''{%'' \<notin> set cls \<and> u ''{{'' \<notin> set cls then Inr (Toks cls)
      else if length (marker_positions cls) mod 2 \<noteq> 0 then Inl AssertionError
      else Inr (Toks (fold_pairs (rev (marker_positions cls)) cls)))"

text \<open>\<open>get_element_class\<close>: the shorthand and the attributes afterwards.\<close>

definition class_shorthand :: "ustring list \<Rightarrow> ustring" where
  "class_shorthand ts =
     concat (map (\<lambda>c. u ''.'' @ c) (filter (\<lambda>x. length x > 0 \<and> \<not> RE_COMPILED_match x) ts))"

definition get_element_class :: "attr_map \<Rightarrow> (error + ustring) \<times> attr_map" where
  "get_element_class as =
     (case map_of as (u ''class'') of
        None \<Rightarrow> (Inr [], as)
      | Some v \<Rightarrow>
          (case fold_jinja_tags_in_class v of
             Inl e \<Rightarrow> (Inl e, as)
           | Inr v' \<Rightarrow>
               (Inr (class_shorthand (iter_val v')),
                if list_ex RE_COMPILED_match (iter_val v')
                then AList.update (u ''class'') (filter_val RE_COMPILED_match v') as
                else AList.delete (u ''class'') as)))"

section \<open>Tag renderer\<close>

text \<open>\<open>attr_str\<close>: the attribute dictionary as \<open>{key:"value",...}\<close>; nothing when empty.\<close>

definition attr_piece :: "ustring \<times> attr_val \<Rightarrow> ustring" where
  "attr_piece kv =
     (case kv of
        (key, Toks val) \<Rightarrow> key @ u '':'' @ [34] @ join (u '' '') val @ [34]
      | (key, Str val) \<Rightarrow> key @ u '':'' @ [34] @ val @ [34])"

definition attr_str :: "attr_map \<Rightarrow> ustring" where
  "attr_str as = (if as = [] then [] else u ''{'' @ join (u '','') (map attr_piece as) @ u ''}'')"

text \<open>
  The text of a neighbour as \<open>unicode(x)\<close> gives it: a missing sibling is \<open>None\<close>, whose
  text is \<open>None\<close>.  \<open>is_tag(x) or unicode(x)[-1] != ' '\<close> and its twin on the first
  character index the empty string out of range.
\<close>

fun ends_nospace :: "node option \<Rightarrow> error + bool" where
  "ends_nospace (Some (Tag n as cs)) = Inr True"
| "ends_nospace (Some (NavigableString s)) = (if s = [] then Inl IndexError else Inr (last s \<noteq> 32))"
| "ends_nospace None = Inr (last (u ''None'') \<noteq> 32)"

fun starts_nospace :: "node option \<Rightarrow> error + bool" where
  "starts_nospace (Some (Tag n as cs)) = Inr True"
| "starts_nospace (Some (NavigableString s)) = (if s = [] then Inl IndexError else Inr (hd s \<noteq> 32))"
| "starts_nospace None = Inr (hd (u ''None'') \<noteq> 32)"

text \<open>\<open>is_outer_nospace\<close>, on the previous and the next sibling of the element.\<close>

definition is_outer_nospace :: "node option \<Rightarrow> node option \<Rightarrow> error + bool" where
  "is_outer_nospace prev nxt =
     (case ends_nospace prev of
        Inl e \<Rightarrow> Inl e
      | Inr prev_nospace \<Rightarrow>
          (case starts_nospace nxt of
             Inl e \<Rightarrow> Inl e
           | Inr next_nospace \<Rightarrow> Inr (prev_nospace \<and> next_nospace)))"

text \<open>\<open>is_inner_nospace\<close>, on the children of the element.\<close>

definition is_inner_nospace :: "node list \<Rightarrow> error + bool" where
  "is_inner_nospace cs =
     (if length cs = 0 then Inr True
      else (case starts_nospace (Some (hd cs)) of
              Inl e \<Rightarrow> Inl e
            | Inr first_nospace \<Rightarrow>
                (case ends_nospace (Some (last cs)) of
                   Inl e \<Rightarrow> Inl e
                 | Inr last_nospace \<Rightarrow> Inr (first_nospace \<and> last_nospace))))"

definition inline_names :: "ustring list" where
  "inline_names = [u ''a'', u ''span'', u ''strong'', u ''em'']"

text \<open>The tag name with the shorthand: \<open>div\<close> is left out when there is one.\<close>

definition tag_head :: "ustring \<Rightarrow> ustring \<Rightarrow> ustring" where
  "tag_head nm tag =
     (if nm = u ''div'' then (if tag = [] then u ''%'' @ nm else tag) else u ''%'' @ nm @ tag)"

text \<open>The markers \<open>>\<close> and \<open><\<close> of an inline element.\<close>

definition inline_markers ::
    "ustring \<Rightarrow> node option \<Rightarrow> node list \<Rightarrow> node option \<Rightarrow> ustring \<Rightarrow> error + ustring" where
  "inline_markers nm prev cs nxt tag =
     (if nm \<in> set inline_names then
        (case is_outer_nospace prev nxt of
           Inl e \<Rightarrow> Inl e
         | Inr outer \<Rightarrow>
             (case is_inner_nospace cs of
                Inl e \<Rightarrow> Inl e
              | Inr inner \<Rightarrow>
                  Inr ((if outer then tag @ u ''>'' else tag) @ (if inner then u ''<'' else []))))
      else Inr tag)"

text \<open>
  \<open>print_tag\<close>: the outcome, the element with its attributes as the call leaves them,
  and the stream.  The siblings of the element are read, never written.  The line is
  printed last, so an exception leaves the stream as it was.
\<close>

fun print_tag ::
    "ustring \<Rightarrow> node option \<Rightarrow> node \<Rightarrow> node option \<Rightarrow> ustring \<Rightarrow> (error + unit) \<times> node \<times> ustring" where
  "print_tag indent_str prev (NavigableString s) nxt stream =
     (Inl AttributeError, NavigableString s, stream)"
| "print_tag indent_str prev (Tag nm as cs) nxt stream =
     (if nm = u ''style'' then (Inr (), Tag nm as cs, stream @ indent_str @ u '':css'' @ [10])
      else
        (case get_element_id as of
           (Inl e, as1) \<Rightarrow> (Inl e, Tag nm as1 cs, stream)
         | (Inr id_tag, as1) \<Rightarrow>
             (case get_element_class as1 of
                (Inl e, as2) \<Rightarrow> (Inl e, Tag nm as2 cs, stream)
              | (Inr class_tag, as2) \<Rightarrow>
                  (case inline_markers nm prev cs nxt
                          (tag_head nm (id_tag @ class_tag) @ attr_str as2) of
                     Inl e \<Rightarrow> (Inl e, Tag nm as2 cs, stream)
                   | Inr tag \<Rightarrow> (Inr (), Tag nm as2 cs, stream @ indent_str @ tag @ [10])))))"

section \<open>Text renderer\<close>

text \<open>
  \<open>replace_reserved_first_char\<close>: the index of the first character that is not a space
  (the \<open>else\<close> of the \<open>for\<close> returns the text when there is none), then the three
  replacements in turn at that index.
\<close>

fun first_not_space :: "ustring \<Rightarrow> nat \<Rightarrow> nat option" where
  "first_not_space [] i = None"
| "first_not_space (c # cs) i = (if c \<noteq> 32 then Some i else first_not_space cs (i + 1))"

definition pairs :: "(uchar \<times> ustring) list" where
  "pairs = [(45, u ''&minus;''), (37, u ''&#37;''), (35, u ''%#35'')]"

fun replace_at :: "nat \<Rightarrow> (uchar \<times> ustring) list \<Rightarrow> ustring \<Rightarrow> ustring" where
  "replace_at i [] text = text"
| "replace_at i ((char, entity) # ps) text =
     replace_at i ps
       (if text ! i = char then take i text @ entity @ drop (i + 1) text else text)"

definition replace_reserved_first_char :: "ustring \<Rightarrow> ustring" where
  "replace_reserved_first_char text =
     (case first_not_space text 0 of
        None \<Rightarrow> text
      | Some i_first \<Rightarrow> replace_at i_first pairs text)"

text \<open>
  \<open>indented_string\<close>.  The inner loop carries \<open>print_line\<close> and \<open>result\<close> over the
  words of one line; the outer loop carries \<open>result\<close> over the lines.  The source
  computes \<open>width = full_width - indent\<close> and compares with \<open>full_width\<close>.
\<close>

fun wrap_words :: "nat \<Rightarrow> nat \<Rightarrow> ustring list \<Rightarrow> ustring \<times> ustring \<Rightarrow> ustring \<times> ustring" where
  "wrap_words indent full_width [] st = st"
| "wrap_words indent full_width (word # ws) (print_line, result) =
     (let add_word = (if print_line \<noteq> [] then print_line @ u '' '' @ word else word)
      in if length add_word < full_width
         then wrap_words indent full_width ws (add_word, result)
         else wrap_words indent full_width ws (word, result @ spaces indent @ print_line @ [10]))"

definition wrap_line :: "nat \<Rightarrow> nat \<Rightarrow> ustring \<Rightarrow> ustring \<Rightarrow> ustring" where
  "wrap_line indent full_width line result =
     (let words = split line;
          line_indent = length line - length (lstrip line)
      in case wrap_words indent full_width words (spaces line_indent, result) of
           (print_line, result') \<Rightarrow>
             if print_line \<noteq> [] then result' @ spaces indent @ print_line @ [10] else result')"

definition indented_string :: "nat \<Rightarrow> ustring \<Rightarrow> nat \<Rightarrow> ustring" where
  "indented_string indent text full_width =
     fold (wrap_line indent full_width) (splitlines text) []"

text \<open>\<open>clean_quotes\<close>.\<close>

definition clean_quotes :: "ustring \<Rightarrow> ustring" where
  "clean_quotes html =
     (if html = u ''&ldquo;'' \<or> html = u ''&rdquo;'' then [34]
      else if html \<in> set [u ''&lsquo;'', u ''&rsquo;'', u ''&sbquo;'', u ''&prime;''] then [39]
      else if html \<in> set [u ''&hellip;''] then u ''...''
      else html)"

text \<open>\<open>skip_unicode_to_entities\<close>: false on the Cyrillic ranges, true elsewhere.\<close>

definition skip_unicode_to_entities :: "nat \<Rightarrow> bool" where
  "skip_unicode_to_entities code =
     (if (code \<ge> 0x0400 \<and> code \<le> 0x04FF) \<or> (code \<ge> 0x0500 \<and> code \<le> 0x052F)
         \<or> (code \<ge> 0x2DE0 \<and> code \<le> 0x2DFF) \<or> (code \<ge> 0xA640 \<and> code \<le> 0xA69F)
         \<or> code = 0x1D2B \<or> code = 0x1D78
      then False else True)"

text \<open>The decimal digits of a number, as \<open>'{0}'.format(n)\<close> writes them.\<close>

fun decimal :: "nat \<Rightarrow> ustring" where
  "decimal n = (if n < 10 then [48 + n] else decimal (n div 10) @ [48 + n mod 10])"

declare decimal.simps [simp del]

text \<open>
  \<open>unicode_to_entities\<close>.  The table \<open>codepoint2name\<close> belongs to the Python library
  (\<open>htmlentitydefs\<close>) and is a parameter here.
\<close>

definition entity :: "(nat \<Rightarrow> ustring option) \<Rightarrow> uchar \<Rightarrow> ustring" where
  "entity codepoint2name ch =
     (if ch > 128 \<and> skip_unicode_to_entities ch then
        (case codepoint2name ch of
           Some nm \<Rightarrow> clean_quotes (u ''&'' @ nm @ u '';'')
         | None \<Rightarrow> u ''&#'' @ decimal ch @ u '';'')
      else [ch])"

definition unicode_to_entities :: "(nat \<Rightarrow> ustring option) \<Rightarrow> ustring \<Rightarrow> ustring" where
  "unicode_to_entities codepoint2name text =
     join [10] (map (\<lambda>line. concat (map (entity codepoint2name) line)) (splitlines text))"

section \<open>Tree walker\<close>

text \<open>
  \<open>print_elem\<close>, with the siblings that the parse tree gives a node: the children of an
  element are rendered in order, each between its neighbours in the list of children.
\<close>

definition print_text :: "(nat \<Rightarrow> ustring option) \<Rightarrow> nat \<Rightarrow> ustring \<Rightarrow> ustring \<Rightarrow> ustring" where
  "print_text codepoint2name indent raw_string stream =
     (let clean_string = replace_reserved_first_char raw_string;
          clean_string = unicode_to_entities codepoint2name clean_string;
          print_string = indented_string indent clean_string 80
      in if strip print_string \<noteq> [] then stream @ print_string else stream)"

fun print_elem ::
    "(nat \<Rightarrow> ustring option) \<Rightarrow> nat \<Rightarrow> node option \<Rightarrow> node \<Rightarrow> node option \<Rightarrow> ustring
       \<Rightarrow> (error + unit) \<times> node \<times> ustring"
and print_contents ::
    "(nat \<Rightarrow> ustring option) \<Rightarrow> nat \<Rightarrow> node option \<Rightarrow> node list \<Rightarrow> ustring
       \<Rightarrow> (error + unit) \<times> node list \<times> ustring" where
  "print_elem c2n indent prev (NavigableString s) nxt stream =
     (Inr (), NavigableString s, print_text c2n indent s stream)"
| "print_elem c2n indent prev (Tag nm as cs) nxt stream =
     (case print_tag (spaces indent) prev (Tag nm as cs) nxt stream of
        (Inl e, elem', stream') \<Rightarrow> (Inl e, elem', stream')
      | (Inr _, elem', stream') \<Rightarrow>
          (case print_contents c2n (indent + 2) None cs stream' of
             (r, cs', stream'') \<Rightarrow> (r, Tag nm (attrs elem') cs', stream'')))"
| "print_contents c2n indent prev [] stream = (Inr (), [], stream)"
| "print_contents c2n indent prev (child # rest) stream =
     (case print_elem c2n indent prev child (case rest of [] \<Rightarrow> None | d # ds \<Rightarrow> Some d) stream of
        (Inl e, child', stream') \<Rightarrow> (Inl e, child' # rest, stream')
      | (Inr _, child', stream') \<Rightarrow>
          (case print_contents c2n indent (Some child') rest stream' of
             (r, rest', stream'') \<Rightarrow> (r, child' # rest', stream'')))"

section \<open>Notions for the statements\<close>

text \<open>A word: a non-empty string without whitespace, as \<open>split\<close> yields them.\<close>

definition word :: "ustring \<Rightarrow> bool" where
  "word w = (w \<noteq> [] \<and> list_all (\<lambda>c. \<not> isspace c) w)"

text \<open>
  The text of a list of physical lines: each after \<open>indent\<close> spaces and ended by a
  line feed, as the word-wrap appends them to its result.
\<close>

definition emit :: "nat \<Rightarrow> ustring list \<Rightarrow> ustring" where
  "emit indent ps = concat (map (\<lambda>p. spaces indent @ p @ [10]) ps)"

text \<open>
  A settled line: words joined by single spaces, shorter than the width.  The
  word-wrap emits such lines when no line is indented and every word is shorter than
  the width.
\<close>

definition settled :: "nat \<Rightarrow> ustring \<Rightarrow> bool" where
  "settled fw p = (\<exists>ws. ws \<noteq> [] \<and> list_all word ws \<and> p = join [32] ws \<and> length p < fw)"

text \<open>
  A plain character: below 128 and no line boundary.  The folding leaves it alone,
  and the entities it writes consist of such characters.
\<close>

definition plain :: "uchar \<Rightarrow> bool" where
  "plain c = (c < 128 \<and> \<not> islinebreak c)"

section \<open>The attribute classifier and the tag renderer, verified\<close>

lemma RE_COMPILED_match_contains:
  "10 \<notin> set s \<Longrightarrow> RE_COMPILED_match s = contains_reserved s"
  by (induction s) auto

lemma map_of_delete_other:
  "k \<noteq> k' \<Longrightarrow> map_of (AList.delete k as) k' = map_of as k'"
  by (simp add: delete_conv')

lemma get_element_id_other:
  "k \<noteq> u ''id'' \<Longrightarrow> map_of (snd (get_element_id as)) k = map_of as k"
  by (auto simp: get_element_id_def delete_conv' split: option.splits attr_val.splits)

lemma get_element_class_other:
  "k \<noteq> u ''class'' \<Longrightarrow> map_of (snd (get_element_class as)) k = map_of as k"
  by (auto simp: get_element_class_def delete_conv' update_conv' split: option.splits sum.splits)

lemma length_marker_positions:
  "length (marker_positions cls) = length (filter (\<lambda>t. t \<in> set jinja_markers) cls)"
proof -
  have "distinct (marker_positions cls)"
    by (simp add: marker_positions_def)
  then have "length (marker_positions cls) = card (set (marker_positions cls))"
    by (simp add: distinct_card)
  also have "set (marker_positions cls) = {i. i < length cls \<and> cls ! i \<in> set jinja_markers}"
    by (auto simp: marker_positions_def)
  also have "card \<dots> = length (filter (\<lambda>t. t \<in> set jinja_markers) cls)"
    by (simp add: length_filter_conv_card)
  finally show ?thesis .
qed

lemma class_shorthand_hd:
  "class_shorthand ts \<noteq> [] \<Longrightarrow> hd (class_shorthand ts) = 46"
proof -
  assume ne: "class_shorthand ts \<noteq> []"
  define xs where "xs = filter (\<lambda>x. length x > 0 \<and> \<not> RE_COMPILED_match x) ts"
  have cs: "class_shorthand ts = concat (map (\<lambda>c. u ''.'' @ c) xs)"
    by (simp add: class_shorthand_def xs_def)
  with ne obtain y ys where "xs = y # ys"
    by (cases xs) auto
  with cs show ?thesis by simp
qed

lemma get_element_id_hd:
  "get_element_id as = (Inr id_tag, as1) \<Longrightarrow> id_tag \<noteq> [] \<Longrightarrow> hd id_tag = 35"
  by (auto simp: get_element_id_def split: option.splits attr_val.splits if_splits)

lemma get_element_class_shape:
  "get_element_class as = (Inr class_tag, as2) \<Longrightarrow> class_tag \<noteq> [] \<Longrightarrow> hd class_tag = 46"
  by (auto simp: get_element_class_def class_shorthand_hd split: option.splits sum.splits)

lemma inline_markers_shape:
  "inline_markers nm prev cs nxt tag = Inr t \<Longrightarrow> \<exists>m. t = tag @ m"
  by (auto simp: inline_markers_def split: if_splits sum.splits)

text \<open>
  Claim C6.  For an element that is not \<open>style\<close>, whenever the tag line is printed it is
  the indent, then the shorthand alone when the name is \<open>div\<close> and the shorthand of id
  and class is not empty, and \<open>%\<close>, the name and the shorthand for every other name and
  for a \<open>div\<close> without shorthand; the attributes and markers follow.  A shorthand that is
  not empty begins with \<open>#\<close> or \<open>.\<close>, so the line of such a \<open>div\<close> carries no tag name.
\<close>

theorem print_tag_name_omission:
  assumes "nm \<noteq> u ''style''"
      and "print_tag indent_str prev (Tag nm as cs) nxt stream = (Inr (), elem', stream')"
  shows "\<exists>id_tag as1 class_tag as2 rest.
           get_element_id as = (Inr id_tag, as1) \<and>
           get_element_class as1 = (Inr class_tag, as2) \<and>
           stream' = stream @ indent_str
              @ (if nm = u ''div'' \<and> id_tag @ class_tag \<noteq> [] then id_tag @ class_tag
                 else u ''%'' @ nm @ id_tag @ class_tag)
              @ rest @ [10] \<and>
           (if id_tag @ class_tag = [] then True
            else hd (id_tag @ class_tag) = 35 \<or> hd (id_tag @ class_tag) = 46)"
proof -
  obtain r1 as1 where g1: "get_element_id as = (r1, as1)" by (cases "get_element_id as")
  obtain r2 as2 where g2: "get_element_class as1 = (r2, as2)" by (cases "get_element_class as1")
  from assms g1 obtain id_tag where r1: "r1 = Inr id_tag"
    by (cases r1) auto
  from assms g1 g2 r1 obtain class_tag where r2: "r2 = Inr class_tag"
    by (cases r2) auto
  from assms g1 g2 r1 r2 obtain tag where
    im: "inline_markers nm prev cs nxt (tag_head nm (id_tag @ class_tag) @ attr_str as2) = Inr tag"
    and st: "stream' = stream @ indent_str @ tag @ [10]"
    by (auto split: sum.splits)
  from inline_markers_shape [OF im] obtain m where
    tag: "tag = tag_head nm (id_tag @ class_tag) @ attr_str as2 @ m" by auto
  have hd: "if id_tag @ class_tag = [] then True
            else hd (id_tag @ class_tag) = 35 \<or> hd (id_tag @ class_tag) = 46"
    using get_element_id_hd [OF g1 [unfolded r1]] get_element_class_shape [OF g2 [unfolded r2]]
    by (cases id_tag) auto
  have "stream' = stream @ indent_str
              @ (if nm = u ''div'' \<and> id_tag @ class_tag \<noteq> [] then id_tag @ class_tag
                 else u ''%'' @ nm @ id_tag @ class_tag)
              @ (attr_str as2 @ m) @ [10]"
    using st tag by (simp add: tag_head_def)
  with g1 g2 r1 r2 hd show ?thesis by blast
qed


theorem print_tag_name_omission_witness:
  "u ''div'' \<noteq> u ''style'' \<and>
   print_tag [] None (Tag (u ''div'') [(u ''id'', Str (u ''foo''))] []) None []
     = (Inr (), Tag (u ''div'') [] [], u ''#foo'' @ [10]) \<and>
   (\<exists>id_tag as1 class_tag as2 rest.
           get_element_id [(u ''id'', Str (u ''foo''))] = (Inr id_tag, as1) \<and>
           get_element_class as1 = (Inr class_tag, as2) \<and>
           u ''#foo'' @ [10] = [] @ []
              @ (if u ''div'' = u ''div'' \<and> id_tag @ class_tag \<noteq> [] then id_tag @ class_tag
                 else u ''%'' @ u ''div'' @ id_tag @ class_tag)
              @ rest @ [10] \<and>
           (if id_tag @ class_tag = [] then True
            else hd (id_tag @ class_tag) = 35 \<or> hd (id_tag @ class_tag) = 46))"
proof -
  have h1: "u ''div'' \<noteq> u ''style''" by simp
  have h2: "print_tag [] None (Tag (u ''div'') [(u ''id'', Str (u ''foo''))] []) None []
     = (Inr (), Tag (u ''div'') [] [], u ''#foo'' @ [10])"
    by (simp add: get_element_id_def get_element_class_def starts_reserved_def
        inline_markers_def inline_names_def tag_head_def attr_str_def)
  from print_tag_name_omission [OF h1 h2] h1 h2 show ?thesis by blast
qed

text \<open>
  Claim C3, as the code has it.  A class list with an odd number of marker tokens and no
  opening marker passes the guard at the head of \<open>fold_jinja_tags_in_class\<close>, and the
  element is rendered.
\<close>

theorem odd_markers_without_opener_counterexample:
  "odd (length (filter (\<lambda>t. t \<in> set jinja_markers) [u ''foo'', u ''%}''])) \<and>
   print_tag [] None (Tag (u ''div'') [(u ''class'', Toks [u ''foo'', u ''%}''])] []) None []
     = (Inr (), Tag (u ''div'') [] [], u ''.foo.%}'' @ [10])"
  by (simp add: jinja_markers_def get_element_id_def get_element_class_def class_shorthand_def
      starts_reserved_def inline_markers_def inline_names_def tag_head_def attr_str_def)

lemma get_element_id_class:
  "map_of (snd (get_element_id as)) (u ''class'') = map_of as (u ''class'')"
  by (rule get_element_id_other) simp

lemma get_element_id_result:
  "fst (get_element_id as) =
     (case map_of as (u ''id'') of Some (Toks l) \<Rightarrow> Inl TypeError
      | Some (Str v) \<Rightarrow> if RE_COMPILED_match v then Inr [] else Inr (u ''#'' @ v)
      | None \<Rightarrow> Inr [])"
  by (simp add: get_element_id_def split: option.splits attr_val.splits)

text \<open>
  Claim C3, amended.  For an element that is not \<open>style\<close> and whose class list holds an
  opening marker \<open>{%\<close> or \<open>{{\<close> and an odd number of marker tokens, rendering the tag
  ends in an exception (the failed assertion, or the type error of an id that is a list)
  and the stream is as it was.
\<close>

theorem print_tag_odd_markers_abort:
  assumes "nm \<noteq> u ''style''"
      and "map_of as (u ''class'') = Some (Toks ts)"
      and "u ''{%'' \<in> set ts \<or> u ''{{'' \<in> set ts"
      and "odd (length (filter (\<lambda>t. t \<in> set jinja_markers) ts))"
  shows "\<exists>e elem'. print_tag indent_str prev (Tag nm as cs) nxt stream = (Inl e, elem', stream)
           \<and> (e = AssertionError \<or> e = TypeError)"
proof -
  obtain r1 as1 where g1: "get_element_id as = (r1, as1)" by (cases "get_element_id as")
  have c1: "map_of as1 (u ''class'') = Some (Toks ts)"
    using get_element_id_class [of as] g1 assms(2) by simp
  have f: "fold_jinja_tags_in_class (Toks ts) = Inl AssertionError"
    using assms(3,4) by (auto simp: length_marker_positions odd_iff_mod_2_eq_one)
  have g2: "get_element_class as1 = (Inl AssertionError, as1)"
    using c1 f by (simp add: get_element_class_def)
  show ?thesis
  proof (cases r1)
    case (Inl e)
    then have "e = TypeError"
      using g1 by (auto simp: get_element_id_def split: option.splits attr_val.splits if_splits)
    with Inl g1 assms(1) show ?thesis by simp
  next
    case (Inr id_tag)
    with g1 g2 assms(1) show ?thesis by simp
  qed
qed

theorem print_tag_odd_markers_abort_witness:
  "u ''tr'' \<noteq> u ''style'' \<and>
   map_of [(u ''class'', Toks [u ''{%'', u ''cycle'']), (u ''id'', Str (u ''r''))] (u ''class'')
     = Some (Toks [u ''{%'', u ''cycle'']) \<and>
   (u ''{%'' \<in> set [u ''{%'', u ''cycle''] \<or> u ''{{'' \<in> set [u ''{%'', u ''cycle'']) \<and>
   odd (length (filter (\<lambda>t. t \<in> set jinja_markers) [u ''{%'', u ''cycle''])) \<and>
   print_tag [] None
      (Tag (u ''tr'') [(u ''class'', Toks [u ''{%'', u ''cycle'']), (u ''id'', Str (u ''r''))] [])
      None (u ''%table'' @ [10])
     = (Inl AssertionError, Tag (u ''tr'') [(u ''class'', Toks [u ''{%'', u ''cycle''])] [],
        u ''%table'' @ [10])"
proof -
  let ?as = "[(u ''class'', Toks [u ''{%'', u ''cycle'']), (u ''id'', Str (u ''r''))]"
  have h1: "u ''tr'' \<noteq> u ''style''" by simp
  have h2: "map_of ?as (u ''class'') = Some (Toks [u ''{%'', u ''cycle''])" by simp
  have h3: "u ''{%'' \<in> set [u ''{%'', u ''cycle''] \<or> u ''{{'' \<in> set [u ''{%'', u ''cycle'']"
    by simp
  have h4: "odd (length (filter (\<lambda>t. t \<in> set jinja_markers) [u ''{%'', u ''cycle'']))"
    by (simp add: jinja_markers_def)
  have ev: "print_tag [] None (Tag (u ''tr'') ?as []) None (u ''%table'' @ [10])
     = (Inl AssertionError, Tag (u ''tr'') [(u ''class'', Toks [u ''{%'', u ''cycle''])] [],
        u ''%table'' @ [10])"
    using print_tag_odd_markers_abort [OF h1 h2 h3 h4, of "[]" None "[]" None "u ''%table'' @ [10]"]
    by (simp add: get_element_id_def get_element_class_def starts_reserved_def
        marker_positions_def jinja_markers_def)
  from h1 h2 h3 h4 ev show ?thesis by blast
qed

text \<open>
  Claim C4, at an id whose value has a reserved character after a line feed: the
  pattern does not match, the shorthand is taken and the id is removed.
\<close>

theorem get_element_id_reserved_after_line_feed:
  "contains_reserved (u ''a'' @ [10] @ u ''#b'') \<and>
   get_element_id [(u ''id'', Str (u ''a'' @ [10] @ u ''#b''))]
     = (Inr (u ''#a'' @ [10] @ u ''#b''), [])"
  by (simp add: get_element_id_def starts_reserved_def)

text \<open>On a value of one line, \<open>get_element_id\<close> is what the specification describes.\<close>

lemma get_element_id_single_line:
  assumes "10 \<notin> set v" and "map_of as (u ''id'') = Some (Str v)"
  shows "get_element_id as =
           (if contains_reserved v then (Inr [], as)
            else (Inr (u ''#'' @ v), AList.delete (u ''id'') as))"
  using assms by (simp add: get_element_id_def RE_COMPILED_match_contains)

lemma filter_cong_set: "(\<And>x. x \<in> set xs \<Longrightarrow> P x = Q x) \<Longrightarrow> filter P xs = filter Q xs"
  by (induction xs) auto

lemma set_join: "set (join sep xs) \<subseteq> set sep \<union> \<Union> (set ` set xs)"
  by (induction xs rule: induct_list012) auto

lemma set_slice: "set (slice b e xs) \<subseteq> set xs"
  unfolding slice_def by (meson set_take_subset set_drop_subset subset_trans)

lemma set_del_slice: "set (del_slice b e xs) \<subseteq> set xs"
  unfolding del_slice_def using set_take_subset [of b xs] set_drop_subset [of e xs] by auto

lemma set_list_insert: "set (list_insert i x xs) \<subseteq> insert x (set xs)"
  unfolding list_insert_def using set_take_subset [of i xs] set_drop_subset [of i xs] by auto

lemma fold_pairs_no_line_feed:
  "\<forall>t \<in> set cls. 10 \<notin> set t \<Longrightarrow> \<forall>t \<in> set (fold_pairs ps cls). 10 \<notin> set t"
proof (induction ps cls rule: fold_pairs.induct)
  case (1 e b ps cls)
  let ?j = "join (u '' '') (slice b (e + 1) cls)"
  let ?cls' = "del_slice (b + 1) (e + 2) (list_insert b ?j cls)"
  have "10 \<notin> set ?j"
  proof
    assume "10 \<in> set ?j"
    with set_join [of "u '' ''" "slice b (e + 1) cls"]
    have "10 \<in> set (u '' '') \<union> \<Union> (set ` set (slice b (e + 1) cls))" by blast
    then obtain t where "t \<in> set (slice b (e + 1) cls)" and "10 \<in> set t" by auto
    with set_slice [of b "e + 1" cls] "1.prems" show False by blast
  qed
  moreover have "set ?cls' \<subseteq> insert ?j (set cls)"
    using set_del_slice [of "b + 1" "e + 2" "list_insert b ?j cls"] set_list_insert [of b ?j cls]
    by blast
  ultimately have "\<forall>t \<in> set ?cls'. 10 \<notin> set t"
    using "1.prems" by blast
  from "1.IH" [OF this] show ?case by simp
qed simp_all

lemma fold_jinja_no_line_feed:
  assumes "fold_jinja_tags_in_class (Toks ts) = Inr (Toks ts')" and "\<forall>t \<in> set ts. 10 \<notin> set t"
  shows "\<forall>t \<in> set ts'. 10 \<notin> set t"
  using assms fold_pairs_no_line_feed [OF assms(2), of "rev (marker_positions ts)"]
  by (auto split: if_splits)

text \<open>
  Claim C5.  Without a \<open>class\<close> key the result is empty and the attributes are
  unchanged.  With a token list that holds no line feed (the parser splits the
  attribute at whitespace) and whose folding succeeds, the result is \<open>.\<close> and the token for every non-empty
  token without a reserved character, in order; the \<open>class\<close> entry becomes the tokens
  with a reserved character, in order, when there is one, and is deleted otherwise.
\<close>

theorem get_element_class_partition:
  "(map_of as (u ''class'') = None \<longrightarrow> get_element_class as = (Inr [], as)) \<and>
   (map_of as (u ''class'') = Some (Toks ts) \<longrightarrow>
    fold_jinja_tags_in_class (Toks ts) = Inr (Toks ts') \<longrightarrow>
    (\<forall>t \<in> set ts. 10 \<notin> set t) \<longrightarrow>
    get_element_class as =
      (Inr (concat (map (\<lambda>t. u ''.'' @ t) (filter (\<lambda>t. t \<noteq> [] \<and> \<not> contains_reserved t) ts'))),
       if list_ex contains_reserved ts'
       then AList.update (u ''class'') (Toks (filter contains_reserved ts')) as
       else AList.delete (u ''class'') as))"
proof (intro conjI impI)
  assume "map_of as (u ''class'') = None"
  then show "get_element_class as = (Inr [], as)"
    by (simp add: get_element_class_def)
next
  assume m: "map_of as (u ''class'') = Some (Toks ts)"
     and f: "fold_jinja_tags_in_class (Toks ts) = Inr (Toks ts')"
     and nl0: "\<forall>t \<in> set ts. 10 \<notin> set t"
  have nl: "\<forall>t \<in> set ts'. 10 \<notin> set t"
    by (rule fold_jinja_no_line_feed [OF f nl0])
  have eq: "\<And>t. t \<in> set ts' \<Longrightarrow> RE_COMPILED_match t = contains_reserved t"
    using nl by (simp add: RE_COMPILED_match_contains)
  have f1: "class_shorthand ts'
          = concat (map (\<lambda>t. u ''.'' @ t) (filter (\<lambda>t. t \<noteq> [] \<and> \<not> contains_reserved t) ts'))"
    unfolding class_shorthand_def
    by (rule arg_cong [where f = "\<lambda>xs. concat (map (\<lambda>t. u ''.'' @ t) xs)"], rule filter_cong_set)
       (simp add: eq)
  have f2: "filter RE_COMPILED_match ts' = filter contains_reserved ts'"
    by (rule filter_cong_set) (simp add: eq)
  have f3: "list_ex RE_COMPILED_match ts' = list_ex contains_reserved ts'"
    using eq by (auto simp: list_ex_iff)
  have "get_element_class as =
      (Inr (class_shorthand ts'),
       if list_ex RE_COMPILED_match ts'
       then AList.update (u ''class'') (Toks (filter RE_COMPILED_match ts')) as
       else AList.delete (u ''class'') as)"
    using m f by (simp add: get_element_class_def del: fold_jinja_tags_in_class.simps)
  then show "get_element_class as =
      (Inr (concat (map (\<lambda>t. u ''.'' @ t) (filter (\<lambda>t. t \<noteq> [] \<and> \<not> contains_reserved t) ts'))),
       if list_ex contains_reserved ts'
       then AList.update (u ''class'') (Toks (filter contains_reserved ts')) as
       else AList.delete (u ''class'') as)"
    by (simp only: f1 f2 f3)
qed


theorem get_element_class_partition_witness:
  "map_of [(u ''class'', Toks [u ''foo'', u ''foo#bar'', [], u ''bar'', u ''foo.bar''])] (u ''class'')
     = Some (Toks [u ''foo'', u ''foo#bar'', [], u ''bar'', u ''foo.bar'']) \<and>
   fold_jinja_tags_in_class (Toks [u ''foo'', u ''foo#bar'', [], u ''bar'', u ''foo.bar''])
     = Inr (Toks [u ''foo'', u ''foo#bar'', [], u ''bar'', u ''foo.bar'']) \<and>
   10 \<notin> set (concat [u ''foo'', u ''foo#bar'', [], u ''bar'', u ''foo.bar'']) \<and>
   get_element_class [(u ''class'', Toks [u ''foo'', u ''foo#bar'', [], u ''bar'', u ''foo.bar''])]
     = (Inr (u ''.foo.bar''), [(u ''class'', Toks [u ''foo#bar'', u ''foo.bar''])]) \<and>
   map_of [(u ''href'', Str (u ''x''))] (u ''class'') = None \<and>
   get_element_class [(u ''href'', Str (u ''x''))] = (Inr [], [(u ''href'', Str (u ''x''))])"
proof -
  let ?ts = "[u ''foo'', u ''foo#bar'', [], u ''bar'', u ''foo.bar'']"
  have h1: "map_of [(u ''class'', Toks ?ts)] (u ''class'') = Some (Toks ?ts)" by simp
  have h2: "fold_jinja_tags_in_class (Toks ?ts) = Inr (Toks ?ts)" by simp
  have h3: "\<forall>t \<in> set ?ts. 10 \<notin> set t" by simp
  have h4: "map_of [(u ''href'', Str (u ''x''))] (u ''class'') = None" by simp
  have c1: "get_element_class [(u ''class'', Toks ?ts)]
     = (Inr (u ''.foo.bar''), [(u ''class'', Toks [u ''foo#bar'', u ''foo.bar''])])"
    using get_element_class_partition [of "[(u ''class'', Toks ?ts)]" ?ts ?ts] h1 h2 h3
    by (simp add: starts_reserved_def)
  have c2: "get_element_class [(u ''href'', Str (u ''x''))] = (Inr [], [(u ''href'', Str (u ''x''))])"
    using get_element_class_partition [of "[(u ''href'', Str (u ''x''))]"] h4 by blast
  have h3': "10 \<notin> set (concat ?ts)" by simp
  from h1 h2 h3' h4 c1 c2 show ?thesis by blast
qed

text \<open>
  Claim C9, as the code has it.  A class list with a plain and a reserved token is
  neither kept nor removed: the entry stays, with the reserved tokens only.
\<close>

theorem class_rewritten_counterexample:
  "print_tag [] None (Tag (u ''p'') [(u ''class'', Toks [u ''foo'', u ''a.b''])] []) None []
     = (Inr (), Tag (u ''p'') [(u ''class'', Toks [u ''a.b''])] [],
        u ''%p.foo{class:'' @ [34] @ u ''a.b'' @ [34] @ u ''}'' @ [10])"
  by (simp add: get_element_id_def get_element_class_def class_shorthand_def
      starts_reserved_def inline_markers_def inline_names_def tag_head_def attr_str_def
      attr_piece_def)

lemma get_element_id_id:
  "map_of (snd (get_element_id as)) (u ''id'') = map_of as (u ''id'') \<or>
   map_of (snd (get_element_id as)) (u ''id'') = None"
  by (auto simp: get_element_id_def delete_conv' split: option.splits attr_val.splits)

lemma get_element_class_class:
  "map_of (snd (get_element_class as)) (u ''class'') = map_of as (u ''class'') \<or>
   map_of (snd (get_element_class as)) (u ''class'') = None \<or>
   (\<exists>v v'. map_of as (u ''class'') = Some v \<and> fold_jinja_tags_in_class v = Inr v' \<and>
      map_of (snd (get_element_class as)) (u ''class'') = Some (filter_val RE_COMPILED_match v'))"
  by (auto simp: get_element_class_def delete_conv' update_conv' split: option.splits sum.splits)

lemma print_tag_attrs:
  "print_tag indent_str prev (Tag nm as cs) nxt stream = (r, elem', stream') \<Longrightarrow>
   elem' = Tag nm as cs \<or>
   elem' = Tag nm (snd (get_element_id as)) cs \<or>
   elem' = Tag nm (snd (get_element_class (snd (get_element_id as)))) cs"
  by (auto split: if_splits prod.splits sum.splits)

text \<open>
  Claim C9, amended.  Rendering a tag leaves its name and its children as they were,
  and every attribute other than \<open>id\<close> and \<open>class\<close> with the value it had.  The \<open>id\<close>
  entry is kept or removed; the \<open>class\<close> entry is kept, removed, or replaced by the
  reserved tokens of the folded list.  No other element is written: the siblings are
  arguments only.
\<close>

theorem print_tag_frame:
  assumes "print_tag indent_str prev (Tag nm as cs) nxt stream = (r, elem', stream')"
  shows "name elem' = nm \<and> contents elem' = cs \<and>
     (\<forall>k. k \<noteq> u ''id'' \<and> k \<noteq> u ''class'' \<longrightarrow> map_of (attrs elem') k = map_of as k) \<and>
     (map_of (attrs elem') (u ''id'') = map_of as (u ''id'') \<or>
      map_of (attrs elem') (u ''id'') = None) \<and>
     (map_of (attrs elem') (u ''class'') = map_of as (u ''class'') \<or>
      map_of (attrs elem') (u ''class'') = None \<or>
      (\<exists>v v'. map_of as (u ''class'') = Some v \<and> fold_jinja_tags_in_class v = Inr v' \<and>
         map_of (attrs elem') (u ''class'') = Some (filter_val RE_COMPILED_match v')))"
proof -
  let ?a1 = "snd (get_element_id as)"
  let ?a2 = "snd (get_element_class ?a1)"
  have id_cl: "u ''id'' \<noteq> u ''class''" by simp
  have o1: "\<And>k. k \<noteq> u ''id'' \<Longrightarrow> map_of ?a1 k = map_of as k"
    by (rule get_element_id_other)
  have o2: "\<And>k. k \<noteq> u ''class'' \<Longrightarrow> map_of ?a2 k = map_of ?a1 k"
    by (rule get_element_class_other)
  have c1: "map_of ?a1 (u ''class'') = map_of as (u ''class'')"
    by (rule get_element_id_class)
  have i2: "map_of ?a2 (u ''id'') = map_of ?a1 (u ''id'')"
    by (rule get_element_class_other) simp
  from print_tag_attrs [OF assms] consider
    (a) "elem' = Tag nm as cs" | (b) "elem' = Tag nm ?a1 cs" | (c) "elem' = Tag nm ?a2 cs"
    by blast
  then show ?thesis
  proof cases
    case a
    then show ?thesis by simp
  next
    case b
    then show ?thesis using o1 c1 get_element_id_id [of as] by auto
  next
    case c
    have cc: "map_of ?a2 (u ''class'') = map_of as (u ''class'') \<or>
       map_of ?a2 (u ''class'') = None \<or>
       (\<exists>v v'. map_of as (u ''class'') = Some v \<and> fold_jinja_tags_in_class v = Inr v' \<and>
          map_of ?a2 (u ''class'') = Some (filter_val RE_COMPILED_match v'))"
      using get_element_class_class [of ?a1] unfolding c1 .
    have ii: "map_of ?a2 (u ''id'') = map_of as (u ''id'') \<or> map_of ?a2 (u ''id'') = None"
      using get_element_id_id [of as] unfolding i2 .
    have oo: "\<forall>k. k \<noteq> u ''id'' \<and> k \<noteq> u ''class'' \<longrightarrow> map_of ?a2 k = map_of as k"
      using o1 o2 by simp
    from c cc ii oo show ?thesis by simp
  qed
qed


theorem print_tag_frame_witness:
  "print_tag [] None
      (Tag (u ''p'') [(u ''id'', Str (u ''x'')), (u ''class'', Toks [u ''foo'', u ''a.b'']),
                      (u ''title'', Str (u ''t''))] [NavigableString (u ''hi'')]) None []
     = (Inr (), Tag (u ''p'') [(u ''class'', Toks [u ''a.b'']), (u ''title'', Str (u ''t''))]
                  [NavigableString (u ''hi'')],
        u ''%p#x.foo{class:'' @ [34] @ u ''a.b'' @ [34] @ u '',title:'' @ [34] @ u ''t'' @ [34]
          @ u ''}'' @ [10]) \<and>
   map_of [(u ''class'', Toks [u ''a.b'']), (u ''title'', Str (u ''t''))] (u ''title'')
     = map_of [(u ''id'', Str (u ''x'')), (u ''class'', Toks [u ''foo'', u ''a.b'']),
               (u ''title'', Str (u ''t''))] (u ''title'') \<and>
   map_of [(u ''class'', Toks [u ''a.b'']), (u ''title'', Str (u ''t''))] (u ''id'') = None"
proof -
  let ?as = "[(u ''id'', Str (u ''x'')), (u ''class'', Toks [u ''foo'', u ''a.b'']),
              (u ''title'', Str (u ''t''))]"
  let ?as' = "[(u ''class'', Toks [u ''a.b'']), (u ''title'', Str (u ''t''))]"
  have h: "print_tag [] None (Tag (u ''p'') ?as [NavigableString (u ''hi'')]) None []
     = (Inr (), Tag (u ''p'') ?as' [NavigableString (u ''hi'')],
        u ''%p#x.foo{class:'' @ [34] @ u ''a.b'' @ [34] @ u '',title:'' @ [34] @ u ''t'' @ [34]
          @ u ''}'' @ [10])"
    by (simp add: get_element_id_def get_element_class_def class_shorthand_def
        starts_reserved_def inline_markers_def inline_names_def tag_head_def attr_str_def
        attr_piece_def)
  from print_tag_frame [OF h] have
    "\<forall>k. k \<noteq> u ''id'' \<and> k \<noteq> u ''class'' \<longrightarrow> map_of ?as' k = map_of ?as k"
    by simp
  then have t: "map_of ?as' (u ''title'') = map_of ?as (u ''title'')"
    by simp
  have i: "map_of ?as' (u ''id'') = None" by simp
  from h t i show ?thesis by blast
qed

text \<open>
  Claim C10.  A missing sibling has the text \<open>None\<close>, which neither ends nor begins
  with a space: both sides count as free of whitespace.  An only child is rendered
  with no sibling on either side, and the tag line of an inline element so placed,
  whenever it is printed, carries the marker \<open>>\<close> (followed by \<open><\<close> or by nothing).
\<close>

theorem only_child_outer_nospace:
  "ends_nospace None = Inr True \<and> starts_nospace None = Inr True \<and>
   is_outer_nospace None None = Inr True \<and>
   print_contents c2n indent None [child] stream
     = (case print_elem c2n indent None child None stream of
          (r, child', stream') \<Rightarrow> (r, [child'], stream')) \<and>
   (nm \<in> set inline_names \<longrightarrow>
    print_tag indent_str None (Tag nm as cs) None stream = (Inr (), elem', stream') \<longrightarrow>
    (\<exists>body. stream' = stream @ indent_str @ body @ u ''>'' @ [10] \<or>
            stream' = stream @ indent_str @ body @ u ''><'' @ [10]))"
proof (intro conjI impI)
  show e: "ends_nospace None = Inr True" by simp
  show s: "starts_nospace None = Inr True" by simp
  show o: "is_outer_nospace None None = Inr True" by (simp add: is_outer_nospace_def)
  show "print_contents c2n indent None [child] stream
     = (case print_elem c2n indent None child None stream of
          (r, child', stream') \<Rightarrow> (r, [child'], stream'))"
    by (simp split: prod.splits sum.splits)
  assume nm: "nm \<in> set inline_names"
     and pt: "print_tag indent_str None (Tag nm as cs) None stream = (Inr (), elem', stream')"
  from nm have ns: "nm \<noteq> u ''style''" by (auto simp: inline_names_def)
  from pt ns obtain tag0 tag where
    im: "inline_markers nm None cs None tag0 = Inr tag"
    and st: "stream' = stream @ indent_str @ tag @ [10]"
    by (auto split: prod.splits sum.splits)
  from im nm o obtain inner where
    "tag = (tag0 @ u ''>'') @ (if inner then u ''<'' else [])"
    by (auto simp: inline_markers_def split: sum.splits)
  with st show "\<exists>body. stream' = stream @ indent_str @ body @ u ''>'' @ [10] \<or>
            stream' = stream @ indent_str @ body @ u ''><'' @ [10]"
    by (cases inner) auto
qed

theorem only_child_outer_nospace_witness:
  "u ''a'' \<in> set inline_names \<and>
   print_tag (u ''  '') None (Tag (u ''a'') [] [NavigableString (u ''foo'')]) None (u ''%p'' @ [10])
     = (Inr (), Tag (u ''a'') [] [NavigableString (u ''foo'')], u ''%p'' @ [10] @ u ''  %a><'' @ [10])
   \<and> (\<exists>body. u ''%p'' @ [10] @ u ''  %a><'' @ [10]
               = (u ''%p'' @ [10]) @ u ''  '' @ body @ u ''>'' @ [10] \<or>
             u ''%p'' @ [10] @ u ''  %a><'' @ [10]
               = (u ''%p'' @ [10]) @ u ''  '' @ body @ u ''><'' @ [10])"
proof -
  have h1: "u ''a'' \<in> set inline_names" by (simp add: inline_names_def)
  have h2: "print_tag (u ''  '') None (Tag (u ''a'') [] [NavigableString (u ''foo'')]) None
      (u ''%p'' @ [10])
     = (Inr (), Tag (u ''a'') [] [NavigableString (u ''foo'')], u ''%p'' @ [10] @ u ''  %a><'' @ [10])"
    by (simp add: get_element_id_def get_element_class_def inline_markers_def inline_names_def
        tag_head_def attr_str_def is_outer_nospace_def is_inner_nospace_def)
  from only_child_outer_nospace [where nm = "u ''a''" and indent_str = "u ''  ''" and as = "[]"
      and cs = "[NavigableString (u ''foo'')]" and stream = "u ''%p'' @ [10]"
      and elem' = "Tag (u ''a'') [] [NavigableString (u ''foo'')]"
      and stream' = "u ''%p'' @ [10] @ u ''  %a><'' @ [10]"] h1 h2
  have "\<exists>body. u ''%p'' @ [10] @ u ''  %a><'' @ [10]
               = (u ''%p'' @ [10]) @ u ''  '' @ body @ u ''>'' @ [10] \<or>
             u ''%p'' @ [10] @ u ''  %a><'' @ [10]
               = (u ''%p'' @ [10]) @ u ''  '' @ body @ u ''><'' @ [10]"
    by blast
  with h1 h2 show ?thesis by blast
qed

section \<open>Strings: splitting into words and lines\<close>

lemma islinebreak_isspace: "islinebreak c \<Longrightarrow> isspace c"
  by (auto simp: islinebreak_def isspace_def)

lemma isspace_32 [simp]: "isspace 32"
  by (simp add: isspace_def)

lemma not_islinebreak_32 [simp]: "\<not> islinebreak 32"
  by (simp add: islinebreak_def)

lemma islinebreak_10 [simp]: "islinebreak 10"
  by (simp add: islinebreak_def)

lemma split_word_cons:
  assumes "word w" and "isspace s"
  shows "split (w @ s # rest) = w # split rest"
proof -
  from assms(1) obtain c cs where w: "w = c # cs" and c: "\<not> isspace c"
    and cs: "\<forall>x\<in>set cs. \<not> isspace x"
    by (cases w) (auto simp: word_def list_all_iff)
  have t: "takeWhile (\<lambda>x. \<not> isspace x) (cs @ s # rest) = cs"
    using cs assms(2) by (simp add: takeWhile_append2 takeWhile_tail)
  have d: "dropWhile (\<lambda>x. \<not> isspace x) (cs @ s # rest) = s # rest"
    using cs assms(2) by (simp add: dropWhile_append2)
  show ?thesis
    using c assms(2) by (simp add: w t d)
qed

lemma split_word: "word w \<Longrightarrow> split w = [w]"
proof -
  assume a: "word w"
  then obtain c cs where w: "w = c # cs" and c: "\<not> isspace c"
    and cs: "\<forall>x\<in>set cs. \<not> isspace x"
    by (cases w) (auto simp: word_def list_all_iff)
  have t: "takeWhile (\<lambda>x. \<not> isspace x) cs = cs"
    using cs by simp
  have d: "dropWhile (\<lambda>x. \<not> isspace x) cs = []"
    using cs by simp
  show ?thesis using c by (simp add: w t d)
qed

lemma split_words: "list_all word (split s)"
proof (induction s rule: split.induct)
  case 1
  then show ?case by simp
next
  case (2 c cs)
  show ?case
  proof (cases "isspace c")
    case True
    with 2 show ?thesis by simp
  next
    case False
    have w: "word (c # takeWhile (\<lambda>x. \<not> isspace x) cs)"
      using False by (auto simp: word_def list_all_iff dest: set_takeWhileD)
    from 2(2) [OF False] have "list_all word (split (dropWhile (\<lambda>x. \<not> isspace x) cs))" .
    with w False show ?thesis by simp
  qed
qed

lemma split_join:
  "ws \<noteq> [] \<Longrightarrow> list_all word ws \<Longrightarrow> split (join [32] ws) = ws"
proof (induction ws rule: induct_list012)
  case 1
  then show ?case by simp
next
  case (2 x)
  then show ?case by (simp add: split_word)
next
  case (3 x y zs)
  then show ?case by (simp add: split_word_cons)
qed

lemma skip_lf_other [simp]: "c \<noteq> 13 \<Longrightarrow> skip_lf c ds = ds"
  by (cases ds) auto

lemma splitlines_line_cons:
  "list_all (\<lambda>c. \<not> islinebreak c) l \<Longrightarrow> splitlines (l @ 10 # rest) = l # splitlines rest"
  by (induction l) auto

lemma splitlines_line:
  "l \<noteq> [] \<Longrightarrow> list_all (\<lambda>c. \<not> islinebreak c) l \<Longrightarrow> splitlines l = [l]"
proof (induction l)
  case Nil
  then show ?case by simp
next
  case (Cons c l)
  then show ?case by (cases l) auto
qed

lemma splitlines_no_break:
  "list_all (list_all (\<lambda>c. \<not> islinebreak c)) (splitlines s)"
proof (induction s rule: splitlines.induct)
  case 1
  then show ?case by simp
next
  case (2 c cs)
  then show ?case by (auto split: list.splits)
qed

lemma splitlines_terminated:
  "list_all (list_all (\<lambda>c. \<not> islinebreak c)) ps \<Longrightarrow>
   splitlines (concat (map (\<lambda>p. p @ [10]) ps)) = ps"
  by (induction ps) (auto simp: splitlines_line_cons)

lemma splitlines_join:
  "ms \<noteq> [] \<Longrightarrow> last ms \<noteq> [] \<Longrightarrow> list_all (list_all (\<lambda>c. \<not> islinebreak c)) ms \<Longrightarrow>
   splitlines (join [10] ms) = ms"
proof (induction ms rule: induct_list012)
  case 1
  then show ?case by simp
next
  case (2 x)
  then show ?case by (simp add: splitlines_line)
next
  case (3 x y zs)
  then show ?case by (simp add: splitlines_line_cons)
qed

section \<open>The word-wrap, verified\<close>

lemma lstrip_word: "word w \<Longrightarrow> lstrip (w @ rest) = w @ rest"
  by (cases w) (auto simp: word_def lstrip_def)

lemma word_replicate: "0 < n \<Longrightarrow> \<not> isspace c \<Longrightarrow> word (replicate n c)"
  by (auto simp: word_def list_all_iff)

lemma not_isspace_a [simp]: "\<not> isspace 97"
  by (simp add: isspace_def)

lemma not_isspace_b [simp]: "\<not> isspace 98"
  by (simp add: isspace_def)

text \<open>
  Claim C1, at indent 2 and a line of two words of 39 characters.  Both words fit in
  the available width of 78; the line is joined up to 79 characters, since the test is
  against \<open>full_width\<close> and not against \<open>width\<close>, and is emitted after the indent with
  81 characters in all.
\<close>

theorem indented_string_exceeds_width:
  "list_all (\<lambda>w. length w \<le> 80 - 2) (split (replicate 39 97 @ [32] @ replicate 39 98)) \<and>
   indented_string 2 (replicate 39 97 @ [32] @ replicate 39 98) 80
     = spaces 2 @ replicate 39 97 @ [32] @ replicate 39 98 @ [10] \<and>
   length (spaces 2 @ replicate 39 97 @ [32] @ replicate 39 98) = 81"
proof -
  let ?a = "replicate 39 (97::nat)" and ?b = "replicate 39 (98::nat)"
  let ?t = "?a @ 32 # ?b"
  have wa: "word ?a" and wb: "word ?b"
    by (simp_all add: word_replicate)
  have sp: "split ?t = [?a, ?b]"
    using split_word_cons [OF wa isspace_32, of ?b] split_word [OF wb] by simp
  have nb: "list_all (\<lambda>c. \<not> islinebreak c) ?t"
    by (simp add: list_all_iff islinebreak_def)
  have sl: "splitlines ?t = [?t]"
    by (rule splitlines_line [OF _ nb]) simp
  have ls: "lstrip ?t = ?t"
    by (rule lstrip_word [OF wa])
  have "indented_string 2 ?t 80 = spaces 2 @ ?t @ [10]"
    by (simp add: indented_string_def wrap_line_def sl sp ls spaces_def)
  then show ?thesis
    by (simp add: sp spaces_def)
qed


lemma split_spaces: "split (spaces n @ xs) = split xs"
  by (induction n) (simp_all add: spaces_def)

lemma lstrip_spaces_word: "word w \<Longrightarrow> lstrip (spaces n @ w @ rest) = w @ rest"
  by (induction n) (simp_all add: spaces_def lstrip_word, simp add: lstrip_def)

text \<open>
  Claim C2, as the code has it.  A line indented by two spaces, of two words of 50
  characters, is wrapped once; the continuation line begins with the second word and
  not with two spaces.
\<close>

theorem continuation_line_unindented_counterexample:
  "indented_string 0 (spaces 2 @ replicate 50 97 @ [32] @ replicate 50 98) 80
     = (spaces 2 @ [32] @ replicate 50 97) @ [10] @ replicate 50 98 @ [10] \<and>
   length (spaces 2 @ replicate 50 97 @ [32] @ replicate 50 98)
     - length (lstrip (spaces 2 @ replicate 50 97 @ [32] @ replicate 50 98)) = 2 \<and>
   \<not> prefix (spaces 2) (replicate 50 98)"
proof -
  let ?a = "replicate 50 (97::nat)" and ?b = "replicate 50 (98::nat)"
  let ?t = "?a @ 32 # ?b"
  have wa: "word ?a" and wb: "word ?b"
    by (simp_all add: word_replicate)
  have sp: "split (spaces 2 @ ?t) = [?a, ?b]"
    using split_word_cons [OF wa isspace_32, of ?b] split_word [OF wb]
    by (simp add: split_spaces)
  have nb: "list_all (\<lambda>c. \<not> islinebreak c) (spaces 2 @ ?t)"
    by (simp add: list_all_iff islinebreak_def spaces_def)
  have sl: "splitlines (spaces 2 @ ?t) = [spaces 2 @ ?t]"
    by (rule splitlines_line [OF _ nb]) simp
  have ls: "lstrip (spaces 2 @ ?t) = ?t"
    using lstrip_spaces_word [OF wa, of 2 "32 # ?b"] by simp
  have len: "length (spaces 2) = 2"
    by (simp add: spaces_def)
  have "indented_string 0 (spaces 2 @ ?t) 80 = (spaces 2 @ 32 # ?a) @ 10 # ?b @ [10]"
    by (simp add: indented_string_def wrap_line_def sl sp ls len) (simp add: spaces_def)
  moreover have "\<not> prefix (spaces 2) ?b"
  proof -
    have "(50::nat) = Suc 49" by simp
    then have "?b = 98 # replicate 49 98"
      by (metis replicate_Suc)
    then show ?thesis
      by (simp add: spaces_def numeral_2_eq_2)
  qed
  ultimately show ?thesis
    by (simp add: ls len)
qed

lemma emit_Nil [simp]: "emit indent [] = []"
  by (simp add: emit_def)

lemma emit_Cons [simp]: "emit indent (p # ps) = spaces indent @ p @ [10] @ emit indent ps"
  by (simp add: emit_def)

lemma emit_append [simp]: "emit indent (ps @ qs) = emit indent ps @ emit indent qs"
  by (simp add: emit_def)

lemma prefix_hd: "prefix w p \<Longrightarrow> w \<noteq> [] \<Longrightarrow> p \<noteq> [] \<and> hd p = hd w"
  by (cases w; cases p) auto

lemma word_hd: "word w \<Longrightarrow> w \<noteq> [] \<and> \<not> isspace (hd w)"
  by (cases w) (auto simp: word_def)

lemma word_no_break: "word w \<Longrightarrow> list_all (\<lambda>c. \<not> islinebreak c) w"
  by (auto simp: word_def list_all_iff dest: islinebreak_isspace)

lemma spaces_no_break: "list_all (\<lambda>c. \<not> islinebreak c) (spaces n)"
  by (simp add: spaces_def list_all_iff)

lemma splitlines_emit_lines:
  assumes "list_all (list_all (\<lambda>c. \<not> islinebreak c)) ps"
  shows "splitlines (emit indent ps) = map (\<lambda>p. spaces indent @ p) ps"
proof -
  have "list_all (list_all (\<lambda>c. \<not> islinebreak c)) (map (\<lambda>p. spaces indent @ p) ps)"
    using assms spaces_no_break [of indent] by (induction ps) simp_all
  from splitlines_terminated [OF this] show ?thesis
    by (simp add: emit_def comp_def)
qed

lemma wrap_words_lines:
  assumes "list_all word ws" and "list_all (\<lambda>c. \<not> islinebreak c) pl"
  shows "\<exists>ps pl'. wrap_words indent fw ws (pl, result) = (pl', result @ emit indent ps)
      \<and> list_all (list_all (\<lambda>c. \<not> islinebreak c)) ps
      \<and> list_all (\<lambda>c. \<not> islinebreak c) pl'
      \<and> list_all (\<lambda>p. p \<noteq> [] \<and> \<not> isspace (hd p)) (tl ps)
      \<and> (if ps = [] then prefix pl pl'
          else prefix pl (hd ps) \<and> pl' \<noteq> [] \<and> \<not> isspace (hd pl'))"
  using assms
proof (induction ws arbitrary: pl result)
  case Nil
  have "wrap_words indent fw [] (pl, result) = (pl, result @ emit indent [])" by simp
  with Nil.prems(2) show ?case by (intro exI [of _ "[]"] exI [of _ pl]) simp
next
  case (Cons w ws)
  from Cons.prems have w: "word w" and ws: "list_all word ws"
    and nbp: "list_all (\<lambda>c. \<not> islinebreak c) pl" by simp_all
  have nbw: "list_all (\<lambda>c. \<not> islinebreak c) w" by (rule word_no_break [OF w])
  define add where "add = (if pl \<noteq> [] then pl @ u '' '' @ w else w)"
  have pa: "prefix pl add" by (simp add: add_def)
  have nba: "list_all (\<lambda>c. \<not> islinebreak c) add"
    using nbp nbw by (simp add: add_def)
  show ?case
  proof (cases "length add < fw")
    case True
    then have step: "wrap_words indent fw (w # ws) (pl, result) = wrap_words indent fw ws (add, result)"
      by (simp add: add_def Let_def)
    from Cons.IH [OF ws nba, of result] obtain ps pl' where
      r: "wrap_words indent fw ws (add, result) = (pl', result @ emit indent ps)"
      and n: "list_all (list_all (\<lambda>c. \<not> islinebreak c)) ps"
      and n': "list_all (\<lambda>c. \<not> islinebreak c) pl'"
      and t: "list_all (\<lambda>p. p \<noteq> [] \<and> \<not> isspace (hd p)) (tl ps)"
      and c: "if ps = [] then prefix add pl'
              else prefix add (hd ps) \<and> pl' \<noteq> [] \<and> \<not> isspace (hd pl')"
      by blast
    have c': "if ps = [] then prefix pl pl'
              else prefix pl (hd ps) \<and> pl' \<noteq> [] \<and> \<not> isspace (hd pl')"
      using c pa by (auto split: if_splits intro: prefix_order.trans)
    from step r have r': "wrap_words indent fw (w # ws) (pl, result) = (pl', result @ emit indent ps)"
      by simp
    from r' n n' t c' show ?thesis by blast
  next
    case False
    then have step: "wrap_words indent fw (w # ws) (pl, result)
        = wrap_words indent fw ws (w, result @ spaces indent @ pl @ [10])"
      by (simp add: add_def Let_def)
    from Cons.IH [OF ws nbw, of "result @ spaces indent @ pl @ [10]"] obtain ps pl' where
      r: "wrap_words indent fw ws (w, result @ spaces indent @ pl @ [10])
            = (pl', (result @ spaces indent @ pl @ [10]) @ emit indent ps)"
      and n: "list_all (list_all (\<lambda>c. \<not> islinebreak c)) ps"
      and n': "list_all (\<lambda>c. \<not> islinebreak c) pl'"
      and t: "list_all (\<lambda>p. p \<noteq> [] \<and> \<not> isspace (hd p)) (tl ps)"
      and c: "if ps = [] then prefix w pl'
              else prefix w (hd ps) \<and> pl' \<noteq> [] \<and> \<not> isspace (hd pl')"
      by blast
    have r': "wrap_words indent fw (w # ws) (pl, result) = (pl', result @ emit indent (pl # ps))"
      using step r by simp
    have nn: "list_all (list_all (\<lambda>c. \<not> islinebreak c)) (pl # ps)"
      using n nbp by simp
    have t': "list_all (\<lambda>p. p \<noteq> [] \<and> \<not> isspace (hd p)) (tl (pl # ps))"
    proof (cases ps)
      case Nil
      then show ?thesis by simp
    next
      case (Cons q qs)
      with c have "prefix w q" by simp
      from prefix_hd [OF this] word_hd [OF w] have "q \<noteq> [] \<and> \<not> isspace (hd q)" by simp
      with t Cons show ?thesis by simp
    qed
    have c': "prefix pl (hd (pl # ps)) \<and> pl' \<noteq> [] \<and> \<not> isspace (hd pl')"
    proof (cases ps)
      case Nil
      with c have "prefix w pl'" by simp
      from prefix_hd [OF this] word_hd [OF w] show ?thesis by simp
    next
      case (Cons q qs)
      with c show ?thesis by simp
    qed
    show ?thesis
      by (intro exI [of _ "pl # ps"] exI [of _ pl']) (use r' nn n' t' c' in simp)
  qed
qed

text \<open>
  Claim C2, amended.  What the word-wrap appends for one input line is a list of
  physical lines: none holds a line boundary, each follows the nesting indent and ends
  in a line feed, and splitting the appended text into lines gives them back.  The
  first of them begins with the original leading indentation of the input line, as
  spaces; every continuation line begins with a character that is not whitespace (the
  word that opened it): the indentation of the input line is not applied again.
\<close>

theorem wrap_line_indentation:
  "\<exists>ps. wrap_line indent fw line result = result @ emit indent ps
     \<and> list_all (list_all (\<lambda>c. \<not> islinebreak c)) ps
     \<and> splitlines (emit indent ps) = map (\<lambda>p. spaces indent @ p) ps
     \<and> (ps = [] \<or> prefix (spaces (length line - length (lstrip line))) (hd ps))
     \<and> list_all (\<lambda>p. p \<noteq> [] \<and> \<not> isspace (hd p)) (tl ps)"
proof -
  let ?pl = "spaces (length line - length (lstrip line))"
  from wrap_words_lines [OF split_words spaces_no_break, of indent fw line _ result]
  obtain ps pl' where
    r: "wrap_words indent fw (split line) (?pl, result) = (pl', result @ emit indent ps)"
    and n: "list_all (list_all (\<lambda>c. \<not> islinebreak c)) ps"
    and n': "list_all (\<lambda>c. \<not> islinebreak c) pl'"
    and t: "list_all (\<lambda>p. p \<noteq> [] \<and> \<not> isspace (hd p)) (tl ps)"
    and c: "if ps = [] then prefix ?pl pl'
            else prefix ?pl (hd ps) \<and> pl' \<noteq> [] \<and> \<not> isspace (hd pl')"
    by blast
  show ?thesis
  proof (cases "pl' = []")
    case True
    with c have "ps = []" by (auto split: if_splits)
    with r True have "wrap_line indent fw line result = result @ emit indent []"
      by (simp add: wrap_line_def)
    then show ?thesis by (intro exI [of _ "[]"]) simp
  next
    case False
    with r have w: "wrap_line indent fw line result = result @ emit indent (ps @ [pl'])"
      by (simp add: wrap_line_def)
    have nn: "list_all (list_all (\<lambda>c. \<not> islinebreak c)) (ps @ [pl'])"
      using n n' by simp
    have sl: "splitlines (emit indent (ps @ [pl'])) = map (\<lambda>p. spaces indent @ p) (ps @ [pl'])"
      by (rule splitlines_emit_lines [OF nn])
    have h: "prefix ?pl (hd (ps @ [pl']))"
      using c by (cases ps) auto
    have tl: "list_all (\<lambda>p. p \<noteq> [] \<and> \<not> isspace (hd p)) (tl (ps @ [pl']))"
      using c t by (cases ps) auto
    from w nn sl h tl show ?thesis by (intro exI [of _ "ps @ [pl']"]) (simp only: simp_thms)
  qed
qed

section \<open>Wrapping twice\<close>

lemma join_snoc: "ws \<noteq> [] \<Longrightarrow> join sep (ws @ [w]) = join sep ws @ sep @ w"
  by (induction ws rule: induct_list012) auto

lemma join_merge: "join sep ((x @ sep @ y) # zs) = join sep (x # y # zs)"
  by (cases zs) auto

lemma length_join_hd: "length w \<le> length (join sep (w # ws))"
  by (cases ws) auto

lemma join_Cons_append: "\<exists>rest. join sep (w # ws) = w @ rest"
  by (cases ws) auto

lemma wrap_words_fit:
  "pl \<noteq> [] \<Longrightarrow> length (join [32] (pl # ws)) < fw \<Longrightarrow>
   wrap_words indent fw ws (pl, result) = (join [32] (pl # ws), result)"
proof (induction ws arbitrary: pl)
  case Nil
  then show ?case by simp
next
  case (Cons w ws)
  have m: "join [32] ((pl @ [32] @ w) # ws) = join [32] (pl # w # ws)"
    by (rule join_merge)
  have "length (pl @ [32] @ w) \<le> length (join [32] ((pl @ [32] @ w) # ws))"
    by (rule length_join_hd)
  with Cons.prems(2) m have fit: "length (pl @ [32] @ w) < fw" by simp
  have "wrap_words indent fw ws (pl @ [32] @ w, result)
          = (join [32] ((pl @ [32] @ w) # ws), result)"
    by (rule Cons.IH) (use Cons.prems(2) m in simp_all)
  with fit Cons.prems(1) m show ?case by (simp add: Let_def)
qed

lemma wrap_words_fit_start:
  assumes "ws \<noteq> []" and "length (join [32] ws) < fw" and "list_all word ws"
  shows "wrap_words indent fw ws ([], result) = (join [32] ws, result)"
proof -
  from assms(1) obtain w ws' where ws: "ws = w # ws'" by (cases ws) auto
  from assms(3) ws have w: "w \<noteq> []" by (simp add: word_def)
  have "length w \<le> length (join [32] (w # ws'))" by (rule length_join_hd)
  with assms(2) ws have fit: "length w < fw" by simp
  have "wrap_words indent fw ws' (w, result) = (join [32] (w # ws'), result)"
    by (rule wrap_words_fit [OF w]) (use assms(2) ws in simp)
  with fit ws show ?thesis by (simp add: Let_def)
qed

lemma settled_wrap_line:
  assumes "settled fw p"
  shows "wrap_line 0 fw p result = result @ p @ [10]"
proof -
  from assms obtain ws where ne: "ws \<noteq> []" and w: "list_all word ws"
    and p: "p = join [32] ws" and len: "length p < fw"
    by (auto simp: settled_def)
  have sp: "split p = ws" unfolding p by (rule split_join [OF ne w])
  from ne obtain w0 ws' where ws: "ws = w0 # ws'" by (cases ws) auto
  from join_Cons_append [of "[32]" w0 ws'] obtain rest where pr: "p = w0 @ rest"
    unfolding p ws by blast
  from w ws have w0: "word w0" by simp
  have ls: "lstrip p = p" unfolding pr by (rule lstrip_word [OF w0])
  have ww: "wrap_words 0 fw ws ([], result) = (p, result)"
    unfolding p by (rule wrap_words_fit_start [OF ne _ w]) (use len p in simp)
  from w0 pr have "p \<noteq> []" by (simp add: word_def)
  then show ?thesis
    by (simp add: wrap_line_def sp ls ww spaces_def)
qed

lemma settled_word: "word w \<Longrightarrow> length w < fw \<Longrightarrow> settled fw w"
  unfolding settled_def by (intro exI [of _ "[w]"]) simp

lemma settled_add:
  assumes "settled fw pl" and "word w" and "length (pl @ [32] @ w) < fw"
  shows "settled fw (pl @ [32] @ w)"
proof -
  from assms(1) obtain ws where ne: "ws \<noteq> []" and w: "list_all word ws"
    and p: "pl = join [32] ws"
    by (auto simp: settled_def)
  have "pl @ [32] @ w = join [32] (ws @ [w])"
    unfolding p by (rule join_snoc [OF ne, symmetric])
  moreover have "list_all word (ws @ [w])" using w assms(2) by simp
  ultimately show ?thesis
    unfolding settled_def using assms(3) by (intro exI [of _ "ws @ [w]"]) simp
qed

lemma settled_nonempty: "settled fw p \<Longrightarrow> p \<noteq> []"
proof -
  assume "settled fw p"
  then obtain ws where ne: "ws \<noteq> []" and w: "list_all word ws" and p: "p = join [32] ws"
    by (auto simp: settled_def)
  from ne obtain w0 ws' where ws: "ws = w0 # ws'" by (cases ws) auto
  from join_Cons_append [of "[32]" w0 ws'] obtain rest where "p = w0 @ rest"
    unfolding p ws by blast
  moreover from w ws have "w0 \<noteq> []" by (simp add: word_def)
  ultimately show ?thesis by simp
qed

lemma join_no_break:
  "list_all word ws \<Longrightarrow> list_all (\<lambda>c. \<not> islinebreak c) (join [32] ws)"
proof (induction ws rule: induct_list012)
  case 1
  then show ?case by simp
next
  case (2 x)
  then show ?case by (auto simp: word_def list_all_iff dest: islinebreak_isspace)
next
  case (3 x y zs)
  then show ?case by (auto simp: word_def list_all_iff dest: islinebreak_isspace)
qed

lemma settled_no_break: "settled fw p \<Longrightarrow> list_all (\<lambda>c. \<not> islinebreak c) p"
  by (auto simp: settled_def join_no_break)

lemma wrap_words_settled:
  assumes "list_all word ws" and "list_all (\<lambda>w. length w < fw) ws"
      and "pl = [] \<or> settled fw pl"
  shows "\<exists>ps pl'. wrap_words 0 fw ws (pl, result) = (pl', result @ emit 0 ps)
      \<and> list_all (settled fw) ps \<and> (pl' = [] \<or> settled fw pl')"
  using assms
proof (induction ws arbitrary: pl result)
  case Nil
  have "wrap_words 0 fw [] (pl, result) = (pl, result @ emit 0 [])" by simp
  with Nil.prems(3) show ?case by (intro exI [of _ "[]"] exI [of _ pl]) simp
next
  case (Cons w ws)
  from Cons.prems have w: "word w" and ws: "list_all word ws"
    and lw: "length w < fw" and lws: "list_all (\<lambda>w. length w < fw) ws"
    by simp_all
  define add where "add = (if pl \<noteq> [] then pl @ u '' '' @ w else w)"
  show ?case
  proof (cases "length add < fw")
    case True
    then have step: "wrap_words 0 fw (w # ws) (pl, result) = wrap_words 0 fw ws (add, result)"
      by (simp add: add_def Let_def)
    have "settled fw add"
    proof (cases "pl = []")
      case True
      then show ?thesis using w lw by (simp add: add_def settled_word)
    next
      case False
      with Cons.prems(3) have "settled fw pl" by simp
      from settled_add [OF this w] True False show ?thesis by (simp add: add_def)
    qed
    then have "add = [] \<or> settled fw add" by simp
    from Cons.IH [OF ws lws this, of result] step show ?thesis by simp
  next
    case False
    with lw have ne: "pl \<noteq> []" by (auto simp: add_def)
    with Cons.prems(3) have spl: "settled fw pl" by simp
    from False have step: "wrap_words 0 fw (w # ws) (pl, result)
        = wrap_words 0 fw ws (w, result @ spaces 0 @ pl @ [10])"
      by (simp add: add_def Let_def)
    have "w = [] \<or> settled fw w" using w lw by (simp add: settled_word)
    from Cons.IH [OF ws lws this, of "result @ spaces 0 @ pl @ [10]"] obtain ps pl' where
      r: "wrap_words 0 fw ws (w, result @ spaces 0 @ pl @ [10])
            = (pl', (result @ spaces 0 @ pl @ [10]) @ emit 0 ps)"
      and s: "list_all (settled fw) ps" and c: "pl' = [] \<or> settled fw pl'"
      by blast
    show ?thesis
      by (intro exI [of _ "pl # ps"] exI [of _ pl']) (use step r s c spl in simp)
  qed
qed

lemma wrap_line_settled:
  assumes "lstrip line = line" and "list_all (\<lambda>w. length w < fw) (split line)"
  shows "\<exists>ps. wrap_line 0 fw line result = result @ emit 0 ps \<and> list_all (settled fw) ps"
proof -
  have "([]::ustring) = [] \<or> settled fw []" by simp
  from wrap_words_settled [OF split_words assms(2) this, of result] obtain ps pl' where
    r: "wrap_words 0 fw (split line) ([], result) = (pl', result @ emit 0 ps)"
    and s: "list_all (settled fw) ps" and c: "pl' = [] \<or> settled fw pl'"
    by blast
  show ?thesis
  proof (cases "pl' = []")
    case True
    with r s show ?thesis
      by (intro exI [of _ ps]) (simp add: wrap_line_def assms(1) spaces_def)
  next
    case False
    with c have "settled fw pl'" by simp
    with r s False show ?thesis
      by (intro exI [of _ "ps @ [pl']"]) (simp add: wrap_line_def assms(1) spaces_def)
  qed
qed

lemma fold_wrap_line_settled:
  assumes "list_all (\<lambda>l. lstrip l = l) ls"
      and "list_all (\<lambda>l. list_all (\<lambda>w. length w < fw) (split l)) ls"
  shows "\<exists>ps. fold (wrap_line 0 fw) ls result = result @ emit 0 ps \<and> list_all (settled fw) ps"
  using assms
proof (induction ls arbitrary: result)
  case Nil
  show ?case by (intro exI [of _ "[]"]) simp
next
  case (Cons l ls)
  from Cons.prems have l1: "lstrip l = l" and l2: "list_all (\<lambda>w. length w < fw) (split l)"
    and r1: "list_all (\<lambda>l. lstrip l = l) ls"
    and r2: "list_all (\<lambda>l. list_all (\<lambda>w. length w < fw) (split l)) ls"
    by simp_all
  from wrap_line_settled [OF l1 l2, of result] obtain ps where
    a: "wrap_line 0 fw l result = result @ emit 0 ps" and b: "list_all (settled fw) ps"
    by blast
  from Cons.IH [OF r1 r2, of "result @ emit 0 ps"] obtain qs where
    c: "fold (wrap_line 0 fw) ls (result @ emit 0 ps) = (result @ emit 0 ps) @ emit 0 qs"
    and d: "list_all (settled fw) qs"
    by blast
  show ?case
    by (intro exI [of _ "ps @ qs"]) (use a b c d in simp)
qed

lemma fold_wrap_line_fixed:
  "list_all (settled fw) ps \<Longrightarrow> fold (wrap_line 0 fw) ps result = result @ emit 0 ps"
  by (induction ps arbitrary: result) (simp_all add: settled_wrap_line spaces_def)

lemma splitlines_emit:
  assumes "list_all (settled fw) ps"
  shows "splitlines (emit 0 ps) = ps"
proof -
  have "list_all (list_all (\<lambda>c. \<not> islinebreak c)) ps"
    using assms by (induction ps) (auto intro: settled_no_break)
  from splitlines_terminated [OF this] show ?thesis
    by (simp add: emit_def spaces_def)
qed

text \<open>
  Claim C7, amended.  At indent 0, for a text in which no line begins with whitespace
  and every word is shorter than the width, wrapping the output of the word-wrap
  again at the same width yields it unchanged.
\<close>

theorem indented_string_idempotent:
  assumes "\<forall>l \<in> set (splitlines text). lstrip l = l"
      and "\<forall>l \<in> set (splitlines text). \<forall>w \<in> set (split l). length w < full_width"
  shows "indented_string 0 (indented_string 0 text full_width) full_width
           = indented_string 0 text full_width"
proof -
  from assms have a: "list_all (\<lambda>l. lstrip l = l) (splitlines text)"
    and b: "list_all (\<lambda>l. list_all (\<lambda>w. length w < full_width) (split l)) (splitlines text)"
    by (simp_all add: list_all_iff)
  from fold_wrap_line_settled [OF a b, of "[]"] obtain ps where
    out: "indented_string 0 text full_width = emit 0 ps"
    and s: "list_all (settled full_width) ps"
    by (auto simp: indented_string_def)
  have "indented_string 0 (emit 0 ps) full_width = emit 0 ps"
    by (simp add: indented_string_def splitlines_emit [OF s] fold_wrap_line_fixed [OF s])
  with out show ?thesis by simp
qed

theorem indented_string_idempotent_witness:
  "splitlines (u ''foo bar'' @ [10] @ u ''baz'') = [u ''foo bar'', u ''baz''] \<and>
   lstrip (u ''foo bar'') = u ''foo bar'' \<and> lstrip (u ''baz'') = u ''baz'' \<and>
   split (u ''foo bar'') = [u ''foo'', u ''bar''] \<and> split (u ''baz'') = [u ''baz''] \<and>
   indented_string 0 (u ''foo bar'' @ [10] @ u ''baz'') 6 = u ''foo'' @ [10] @ u ''bar'' @ [10] @ u ''baz'' @ [10] \<and>
   indented_string 0 (indented_string 0 (u ''foo bar'' @ [10] @ u ''baz'') 6) 6
     = indented_string 0 (u ''foo bar'' @ [10] @ u ''baz'') 6"
proof -
  let ?t = "u ''foo bar'' @ [10] @ u ''baz''"
  have sl: "splitlines ?t = [u ''foo bar'', u ''baz'']"
    by (simp add: islinebreak_def)
  have l1: "lstrip (u ''foo bar'') = u ''foo bar''" and l2: "lstrip (u ''baz'') = u ''baz''"
    by (simp_all add: lstrip_def isspace_def)
  have s1: "split (u ''foo bar'') = [u ''foo'', u ''bar'']" and s2: "split (u ''baz'') = [u ''baz'']"
    by (simp_all add: isspace_def)
  have h1: "\<forall>l \<in> set (splitlines ?t). lstrip l = l"
    unfolding sl using l1 l2 by simp
  have h2: "\<forall>l \<in> set (splitlines ?t). \<forall>w \<in> set (split l). length w < 6"
    unfolding sl using s1 s2 by simp
  have ev: "indented_string 0 ?t 6 = u ''foo'' @ [10] @ u ''bar'' @ [10] @ u ''baz'' @ [10]"
    by (simp add: indented_string_def wrap_line_def islinebreak_def isspace_def lstrip_def
        spaces_def)
  from indented_string_idempotent [OF h1 h2] sl l1 l2 s1 s2 ev show ?thesis by blast
qed

text \<open>
  Claim C7, as the code has it.  A line of one word after one space comes out with two
  spaces (the indentation, then the space that joins a word to a non-empty line), and
  wrapped again with three.
\<close>

theorem indented_string_not_idempotent_counterexample:
  "indented_string 0 (u '' a'') 80 = u ''  a'' @ [10] \<and>
   indented_string 0 (indented_string 0 (u '' a'') 80) 80 = u ''   a'' @ [10]"
  by (simp add: indented_string_def wrap_line_def islinebreak_def isspace_def lstrip_def
      spaces_def)

section \<open>Folding twice\<close>

lemma plain_literals:
  "list_all plain (u ''&'')" "list_all plain (u '';'')" "list_all plain (u ''&#'')"
  "list_all plain [34]" "list_all plain [39]" "list_all plain (u ''...'')"
  by (simp_all add: plain_def islinebreak_def)

lemma clean_quotes_plain: "list_all plain html \<Longrightarrow> list_all plain (clean_quotes html)"
  unfolding clean_quotes_def using plain_literals by (simp del: list.map)

lemma decimal_plain: "list_all plain (decimal n)"
proof (induction n rule: decimal.induct)
  case (1 n)
  show ?case
  proof (cases "n < 10")
    case True
    then show ?thesis
      by (subst decimal.simps) (simp add: plain_def islinebreak_def)
  next
    case False
    have "n mod 10 < 10" by simp
    then have "plain (48 + n mod 10)"
      unfolding plain_def islinebreak_def by linarith
    with 1 [OF False] False show ?thesis
      by (subst decimal.simps) simp
  qed
qed

lemma plain_entity: "plain c \<Longrightarrow> entity c2n c = [c]"
  by (simp add: entity_def plain_def)

lemma entity_cases:
  assumes "\<forall>cp nm. c2n cp = Some nm \<longrightarrow> list_all plain nm"
  shows "entity c2n c = [c] \<or> list_all plain (entity c2n c)"
proof (cases "c > 128 \<and> skip_unicode_to_entities c")
  case False
  then have "entity c2n c = [c]" by (auto simp: entity_def)
  then show ?thesis by simp
next
  case True
  show ?thesis
  proof (cases "c2n c")
    case None
    with True have "entity c2n c = u ''&#'' @ decimal c @ u '';''"
      by (simp add: entity_def)
    moreover have "list_all plain (u ''&#'' @ decimal c @ u '';'')"
      using plain_literals decimal_plain by (simp del: list.map)
    ultimately show ?thesis by simp
  next
    case (Some nm)
    with assms have "list_all plain nm" by blast
    then have "list_all plain (u ''&'' @ nm @ u '';'')"
      using plain_literals by (simp del: list.map)
    from clean_quotes_plain [OF this] Some True show ?thesis
      by (simp add: entity_def del: list.map)
  qed
qed

lemma entity_nonempty: "entity c2n c \<noteq> []"
  by (auto simp: entity_def clean_quotes_def split: option.splits)

lemma entity_fixed:
  "list_all (\<lambda>c. entity c2n c = [c]) xs \<Longrightarrow> concat (map (entity c2n) xs) = xs"
  by (induction xs) simp_all


lemma fold_line_stable:
  assumes "\<forall>cp nm. c2n cp = Some nm \<longrightarrow> list_all plain nm"
  shows "list_all (\<lambda>c. entity c2n c = [c]) (concat (map (entity c2n) l))"
proof (induction l)
  case Nil
  show ?case by simp
next
  case (Cons c l)
  from entity_cases [OF assms, of c]
  have "list_all (\<lambda>c. entity c2n c = [c]) (entity c2n c)"
  proof
    assume e: "entity c2n c = [c]"
    then show ?thesis by simp
  next
    assume "list_all plain (entity c2n c)"
    then show ?thesis by (auto simp: list_all_iff plain_entity)
  qed
  with Cons show ?case by simp
qed

lemma fold_line_no_break:
  assumes "\<forall>cp nm. c2n cp = Some nm \<longrightarrow> list_all plain nm"
      and "list_all (\<lambda>c. \<not> islinebreak c) l"
  shows "list_all (\<lambda>c. \<not> islinebreak c) (concat (map (entity c2n) l))"
  using assms(2)
proof (induction l)
  case Nil
  show ?case by simp
next
  case (Cons c l)
  then have c: "\<not> islinebreak c" and l: "list_all (\<lambda>c. \<not> islinebreak c) l" by simp_all
  from entity_cases [OF assms(1), of c]
  have "list_all (\<lambda>c. \<not> islinebreak c) (entity c2n c)"
  proof
    assume e: "entity c2n c = [c]"
    with c show ?thesis by simp
  next
    assume "list_all plain (entity c2n c)"
    then show ?thesis by (auto simp: list_all_iff plain_def)
  qed
  with Cons.IH [OF l] show ?case by simp
qed

lemma fold_line_nonempty: "l \<noteq> [] \<Longrightarrow> concat (map (entity c2n) l) \<noteq> []"
  by (cases l) (simp_all add: entity_nonempty)

text \<open>
  Claim C8, amended.  Let the names of the table consist of characters below 128 that
  are no line boundaries, as the names of the library's table do.  For a text of at
  most one line, or one whose last line is not empty, folding twice gives what folding
  once gives.  For every line, the characters that the first pass wrote are left alone
  by the second: no entity is escaped again.
\<close>

theorem unicode_to_entities_idempotent:
  assumes "\<forall>cp nm. codepoint2name cp = Some nm \<longrightarrow> list_all (\<lambda>c. c < 128 \<and> \<not> islinebreak c) nm"
      and "length (splitlines text) \<le> 1 \<or> last (splitlines text) \<noteq> []"
  shows "unicode_to_entities codepoint2name (unicode_to_entities codepoint2name text)
           = unicode_to_entities codepoint2name text
         \<and> concat (map (entity codepoint2name) (concat (map (entity codepoint2name) line)))
           = concat (map (entity codepoint2name) line)"
proof
  let ?g = "\<lambda>line. concat (map (entity codepoint2name) line)"
  from assms(1) have names: "\<forall>cp nm. codepoint2name cp = Some nm \<longrightarrow> list_all plain nm"
    by (simp add: plain_def [abs_def])
  have gg: "?g (?g l) = ?g l" for l
    by (rule entity_fixed [OF fold_line_stable [OF names]])
  show "?g (?g line) = ?g line" by (rule gg)
  let ?ls = "splitlines text"
  let ?ms = "map ?g ?ls"
  have f: "unicode_to_entities codepoint2name text = join [10] ?ms"
    by (simp add: unicode_to_entities_def)
  have nb: "list_all (list_all (\<lambda>c. \<not> islinebreak c)) ?ms"
    using splitlines_no_break [of "text"] fold_line_no_break [OF names]
    by (auto simp: list_all_iff)
  show "unicode_to_entities codepoint2name (unicode_to_entities codepoint2name text)
           = unicode_to_entities codepoint2name text"
  proof (cases "?ls = [] \<or> ?ls = [[]]")
    case True
    then have "join [10] ?ms = []" by auto
    with f show ?thesis by (simp add: unicode_to_entities_def)
  next
    case False
    then have ne: "?ls \<noteq> []" and ne1: "?ls \<noteq> [[]]" by simp_all
    have "last ?ls \<noteq> []"
    proof (cases "length ?ls \<le> 1")
      case True
      with ne obtain l where l: "?ls = [l]"
        by (cases ?ls) auto
      with ne1 show ?thesis by simp
    next
      case False
      with assms(2) show ?thesis by simp
    qed
    then have "?g (last ?ls) \<noteq> []"
      by (rule fold_line_nonempty)
    then have lm: "last ?ms \<noteq> []"
      using ne by (metis (no_types, lifting) last_map)
    have "splitlines (join [10] ?ms) = ?ms"
      by (rule splitlines_join [OF _ lm nb]) (use ne in simp)
    then have "unicode_to_entities codepoint2name (join [10] ?ms) = join [10] (map ?g ?ms)"
      by (simp add: unicode_to_entities_def)
    also have "map ?g ?ms = ?ms"
      by (simp add: gg)
    finally show ?thesis by (simp add: f)
  qed
qed


theorem unicode_to_entities_idempotent_witness:
  "splitlines [233, 10, 10, 1040, 8220, 9731] = [[233], [], [1040, 8220, 9731]] \<and>
   unicode_to_entities [233 \<mapsto> u ''eacute'', 8220 \<mapsto> u ''ldquo'']
       [233, 10, 10, 1040, 8220, 9731]
     = u ''&eacute;'' @ [10, 10, 1040, 34] @ u ''&#9731;'' \<and>
   unicode_to_entities [233 \<mapsto> u ''eacute'', 8220 \<mapsto> u ''ldquo'']
       (unicode_to_entities [233 \<mapsto> u ''eacute'', 8220 \<mapsto> u ''ldquo'']
          [233, 10, 10, 1040, 8220, 9731])
     = unicode_to_entities [233 \<mapsto> u ''eacute'', 8220 \<mapsto> u ''ldquo'']
         [233, 10, 10, 1040, 8220, 9731]"
proof -
  let ?c2n = "[233 \<mapsto> u ''eacute'', 8220 \<mapsto> u ''ldquo''] :: nat \<Rightarrow> ustring option"
  let ?t = "[233, 10, 10, 1040, 8220, 9731] :: ustring"
  have sl: "splitlines ?t = [[233], [], [1040, 8220, 9731]]"
    by (simp add: islinebreak_def)
  have h1: "\<forall>cp nm. ?c2n cp = Some nm \<longrightarrow> list_all (\<lambda>c. c < 128 \<and> \<not> islinebreak c) nm"
    by (auto simp: islinebreak_def split: if_splits)
  have h2: "length (splitlines ?t) \<le> 1 \<or> last (splitlines ?t) \<noteq> []"
    unfolding sl by simp
  have d: "decimal 9731 = u ''9731''"
    by (simp add: decimal.simps)
  have ev: "unicode_to_entities ?c2n ?t = u ''&eacute;'' @ [10, 10, 1040, 34] @ u ''&#9731;''"
    by (simp add: unicode_to_entities_def islinebreak_def entity_def
        skip_unicode_to_entities_def clean_quotes_def d)
  from unicode_to_entities_idempotent [OF h1 h2] sl ev show ?thesis by blast
qed

text \<open>
  Claim C8, as the code has it.  The lines are split and joined again by line feeds,
  which drops an empty last line: each pass over a text ending in blank lines takes
  one of them away.
\<close>

theorem unicode_to_entities_blank_last_line_counterexample:
  "unicode_to_entities Map.empty (u ''a'' @ [10, 10]) = u ''a'' @ [10] \<and>
   unicode_to_entities Map.empty (unicode_to_entities Map.empty (u ''a'' @ [10, 10])) = u ''a''"
  by (simp add: unicode_to_entities_def islinebreak_def entity_def)

end
